theory Spec2Isabelle
  imports Main "HOL-Library.Word" "HOL-Library.Sublist" "HOL-Library.Multiset"
    "HOL-Library.Char_ord" "HOL-Library.List_Lexorder"
begin

section \<open>Memory model\<close>

text \<open>
  The queue of \<^verbatim>\<open>queue.c\<close> is a circular doubly linked list of \<^verbatim>\<open>struct list_head\<close>
  nodes. Its operations rewire pointers in place, so the embedding keeps an explicit store:
  every live \<^verbatim>\<open>struct list_head\<close> (the sentinel, the stack locals of \<^verbatim>\<open>merge\<close> and
  \<^verbatim>\<open>q_sort\<close>, and the \<^verbatim>\<open>list\<close> member of every \<^verbatim>\<open>element_t\<close>) is an entry of \<open>nodes\<close>;
  the \<^verbatim>\<open>value\<close> member of every live \<^verbatim>\<open>element_t\<close> is an entry of \<open>elem_value\<close>, keyed by
  the address of the element's \<^verbatim>\<open>list\<close> member (so \<^verbatim>\<open>list_entry\<close> and \<^verbatim>\<open>&e->list\<close> are the
  identity); every live character buffer is an entry of \<open>bufs\<close>, a list of bytes whose
  length is the buffer's capacity. Address 0 is the null pointer. A dereference of a
  pointer that is null or not live is a fault, as is an access past the end of a buffer.
\<close>

type_synonym addr = nat

abbreviation NULL :: addr where "NULL \<equiv> 0"

abbreviation NUL :: char where "NUL \<equiv> CHR 0x00"

datatype fault = Invalid_pointer | Out_of_bounds

type_synonym 'a res = "fault + 'a"

definition bind_res :: "'a res \<Rightarrow> ('a \<Rightarrow> 'b res) \<Rightarrow> 'b res" where
  "bind_res m f = (case m of Inl e \<Rightarrow> Inl e | Inr x \<Rightarrow> f x)"

record list_head =
  nxt :: addr
  prv :: addr

record state =
  nodes :: "addr \<rightharpoonup> list_head"
  elem_value :: "addr \<rightharpoonup> addr"
  bufs :: "addr \<rightharpoonup> string"

definition node_at :: "state \<Rightarrow> addr \<Rightarrow> list_head option" where
  "node_at s p = (if p = NULL then None else nodes s p)"

definition value_at :: "state \<Rightarrow> addr \<Rightarrow> addr option" where
  "value_at s p = (if p = NULL then None else elem_value s p)"

definition buf_at :: "state \<Rightarrow> addr \<Rightarrow> string option" where
  "buf_at s p = (if p = NULL then None else bufs s p)"

definition get_next :: "state \<Rightarrow> addr \<Rightarrow> addr res" where
  "get_next s p = (case node_at s p of None \<Rightarrow> Inl Invalid_pointer | Some n \<Rightarrow> Inr (nxt n))"

definition get_prev :: "state \<Rightarrow> addr \<Rightarrow> addr res" where
  "get_prev s p = (case node_at s p of None \<Rightarrow> Inl Invalid_pointer | Some n \<Rightarrow> Inr (prv n))"

definition set_next :: "addr \<Rightarrow> addr \<Rightarrow> state \<Rightarrow> state res" where
  "set_next p q s = (case node_at s p of None \<Rightarrow> Inl Invalid_pointer
     | Some n \<Rightarrow> Inr (s\<lparr>nodes := (nodes s)(p \<mapsto> n\<lparr>nxt := q\<rparr>)\<rparr>))"

definition set_prev :: "addr \<Rightarrow> addr \<Rightarrow> state \<Rightarrow> state res" where
  "set_prev p q s = (case node_at s p of None \<Rightarrow> Inl Invalid_pointer
     | Some n \<Rightarrow> Inr (s\<lparr>nodes := (nodes s)(p \<mapsto> n\<lparr>prv := q\<rparr>)\<rparr>))"

definition get_value :: "state \<Rightarrow> addr \<Rightarrow> addr res" where
  "get_value s e = (case value_at s e of None \<Rightarrow> Inl Invalid_pointer | Some v \<Rightarrow> Inr v)"

definition set_value :: "addr \<Rightarrow> addr \<Rightarrow> state \<Rightarrow> state res" where
  "set_value e v s = (case value_at s e of None \<Rightarrow> Inl Invalid_pointer
     | Some _ \<Rightarrow> Inr (s\<lparr>elem_value := (elem_value s)(e \<mapsto> v)\<rparr>))"

text \<open>
  \<^verbatim>\<open>p[i] = c\<close> on a character buffer. The index is a mathematical integer: the callers
  compute it in \<^verbatim>\<open>int\<close> or \<^verbatim>\<open>size_t\<close> and pass the value they obtain.
\<close>

definition store_byte :: "addr \<Rightarrow> int \<Rightarrow> char \<Rightarrow> state \<Rightarrow> state res" where
  "store_byte p i c s = (case buf_at s p of None \<Rightarrow> Inl Invalid_pointer
     | Some b \<Rightarrow> if 0 \<le> i \<and> i < int (length b)
                then Inr (s\<lparr>bufs := (bufs s)(p \<mapsto> b[nat i := c])\<rparr>)
                else Inl Out_of_bounds)"

subsection \<open>The allocator\<close>

text \<open>
  \<^verbatim>\<open>malloc\<close> either fails (null) or returns the address of a fresh object. Which of the two,
  and which address, is not determined by the program: the outcome \<open>m\<close> of each call is a
  parameter of the function that makes the call. The fields of a fresh object are
  indeterminate in C; the model fills them with null pointers and NUL bytes, and the code
  writes every one of them before it reads it.
\<close>

definition malloc_list_head :: "addr \<Rightarrow> state \<Rightarrow> state" where
  "malloc_list_head m s = s\<lparr>nodes := (nodes s)(m \<mapsto> \<lparr>nxt = NULL, prv = NULL\<rparr>)\<rparr>"

definition malloc_element :: "addr \<Rightarrow> state \<Rightarrow> state" where
  "malloc_element m s = s\<lparr>nodes := (nodes s)(m \<mapsto> \<lparr>nxt = NULL, prv = NULL\<rparr>),
                          elem_value := (elem_value s)(m \<mapsto> NULL)\<rparr>"

definition malloc_buf :: "addr \<Rightarrow> nat \<Rightarrow> state \<Rightarrow> state" where
  "malloc_buf m n s = s\<lparr>bufs := (bufs s)(m \<mapsto> replicate n NUL)\<rparr>"

definition free_buf :: "addr \<Rightarrow> state \<Rightarrow> state res" where
  "free_buf v s = (if v = NULL then Inr s
     else case bufs s v of None \<Rightarrow> Inl Invalid_pointer
          | Some _ \<Rightarrow> Inr (s\<lparr>bufs := (bufs s)(v := None)\<rparr>))"

definition free_element :: "addr \<Rightarrow> state \<Rightarrow> state res" where
  "free_element e s = (if e = NULL then Inr s
     else if nodes s e = None \<or> elem_value s e = None then Inl Invalid_pointer
     else Inr (s\<lparr>nodes := (nodes s)(e := None), elem_value := (elem_value s)(e := None)\<rparr>))"

text \<open>
  A local \<^verbatim>\<open>LIST_HEAD(name)\<close> lives in the frame of its function: it is created at the
  frame's address, initialised to point to itself, and dies when the function returns.
\<close>

definition LIST_HEAD :: "addr \<Rightarrow> state \<Rightarrow> state" where
  "LIST_HEAD p s = s\<lparr>nodes := (nodes s)(p \<mapsto> \<lparr>nxt = p, prv = p\<rparr>)\<rparr>"

definition end_of_scope :: "addr \<Rightarrow> state \<Rightarrow> state" where
  "end_of_scope p s = s\<lparr>nodes := (nodes s)(p := None)\<rparr>"

section \<open>The list primitive\<close>

text \<open>Modelled from the spec: \<^verbatim>\<open>INIT_LIST_HEAD\<close> of the header \<^verbatim>\<open>list.h\<close>, which is not among
  the sources; section 4.1, init: a ring of one, the sentinel pointing to itself.\<close>

definition INIT_LIST_HEAD :: "addr \<Rightarrow> state \<Rightarrow> state res" where
  "INIT_LIST_HEAD head s = bind_res (set_next head head s) (set_prev head head)"

text \<open>Modelled from the spec: \<^verbatim>\<open>list_empty\<close> of \<^verbatim>\<open>list.h\<close>; section 3: the ring is empty
  when the successor of the head is the head itself.\<close>

definition list_empty :: "state \<Rightarrow> addr \<Rightarrow> bool res" where
  "list_empty s head = bind_res (get_next s head) (\<lambda>n. Inr (n = head))"

text \<open>Modelled from the spec: \<^verbatim>\<open>list_add\<close> of \<^verbatim>\<open>list.h\<close>; section 4.1, insert-after: the node
  is linked between the head and the head's successor.\<close>

definition list_add :: "addr \<Rightarrow> addr \<Rightarrow> state \<Rightarrow> state res" where
  "list_add node head s =
     bind_res (get_next s head) (\<lambda>next.
     bind_res (set_prev next node s) (\<lambda>s.
     bind_res (set_next node next s) (\<lambda>s.
     bind_res (set_prev node head s) (\<lambda>s.
     set_next head node s))))"

text \<open>Modelled from the spec: \<^verbatim>\<open>list_add_tail\<close> of \<^verbatim>\<open>list.h\<close>; section 4.1, insert-before:
  the node is linked between the head's predecessor and the head.\<close>

definition list_add_tail :: "addr \<Rightarrow> addr \<Rightarrow> state \<Rightarrow> state res" where
  "list_add_tail node head s =
     bind_res (get_prev s head) (\<lambda>prev.
     bind_res (set_next prev node s) (\<lambda>s.
     bind_res (set_next node head s) (\<lambda>s.
     bind_res (set_prev node prev s) (\<lambda>s.
     set_prev head node s))))"

text \<open>Modelled from the spec: \<^verbatim>\<open>list_del\<close> of \<^verbatim>\<open>list.h\<close>; section 4.1, unlink: the
  neighbours of the node are linked to each other, the node's own links are left as they
  are.\<close>

definition list_del :: "addr \<Rightarrow> state \<Rightarrow> state res" where
  "list_del node s =
     bind_res (get_next s node) (\<lambda>next.
     bind_res (get_prev s node) (\<lambda>prev.
     bind_res (set_prev next prev s) (\<lambda>s.
     set_next prev next s)))"

text \<open>Modelled from the spec: \<^verbatim>\<open>list_move_tail\<close> of \<^verbatim>\<open>list.h\<close>: unlink, then insert before
  the head of the destination.\<close>

definition list_move_tail :: "addr \<Rightarrow> addr \<Rightarrow> state \<Rightarrow> state res" where
  "list_move_tail node head s = bind_res (list_del node s) (list_add_tail node head)"

text \<open>Modelled from the spec: \<^verbatim>\<open>list_splice\<close> of \<^verbatim>\<open>list.h\<close>; section 4.1, splice: the
  contents of the ring \<open>list\<close> are moved to the front of the ring \<open>head\<close>, leaving
  \<open>list\<close> empty.\<close>

definition list_splice :: "addr \<Rightarrow> addr \<Rightarrow> state \<Rightarrow> state res" where
  "list_splice list head s =
     bind_res (get_next s head) (\<lambda>head_first.
     bind_res (get_next s list) (\<lambda>list_first.
     bind_res (get_prev s list) (\<lambda>list_last.
     bind_res (list_empty s list) (\<lambda>e. if e then Inr s else
     bind_res (set_next head list_first s) (\<lambda>s.
     bind_res (set_prev list_first head s) (\<lambda>s.
     bind_res (set_next list_last head_first s) (\<lambda>s.
     bind_res (set_prev head_first list_last s) (\<lambda>s.
     INIT_LIST_HEAD list s))))))))"

text \<open>Modelled from the spec: \<^verbatim>\<open>list_splice_tail_init\<close> of \<^verbatim>\<open>list.h\<close>; section 4.1, splice:
  the contents of the ring \<open>list\<close> are moved to the tail of the ring \<open>head\<close>, leaving
  \<open>list\<close> empty.\<close>

definition list_splice_tail_init :: "addr \<Rightarrow> addr \<Rightarrow> state \<Rightarrow> state res" where
  "list_splice_tail_init list head s =
     bind_res (get_prev s head) (\<lambda>head_last.
     bind_res (get_next s list) (\<lambda>list_first.
     bind_res (get_prev s list) (\<lambda>list_last.
     bind_res (list_empty s list) (\<lambda>e. if e then INIT_LIST_HEAD list s else
     bind_res (set_prev head list_last s) (\<lambda>s.
     bind_res (set_next list_last head s) (\<lambda>s.
     bind_res (set_prev list_first head_last s) (\<lambda>s.
     bind_res (set_next head_last list_first s) (\<lambda>s.
     INIT_LIST_HEAD list s))))))))"

text \<open>Modelled from the spec: \<^verbatim>\<open>list_cut_position\<close> of \<^verbatim>\<open>list.h\<close>; section 4.1,
  cut-position: the elements from the first one up to and including the pivot \<open>node\<close> move
  into the ring \<open>head_to\<close>, the remainder stays in \<open>head_from\<close>.\<close>

definition list_cut_position :: "addr \<Rightarrow> addr \<Rightarrow> addr \<Rightarrow> state \<Rightarrow> state res" where
  "list_cut_position head_to head_from node s =
     bind_res (get_next s head_from) (\<lambda>head_from_first.
     bind_res (list_empty s head_from) (\<lambda>e. if e then Inr s
     else if head_from = node then INIT_LIST_HEAD head_to s else
     bind_res (get_next s node) (\<lambda>node_next.
     bind_res (set_next head_from node_next s) (\<lambda>s.
     bind_res (set_prev node_next head_from s) (\<lambda>s.
     bind_res (set_prev head_to node s) (\<lambda>s.
     bind_res (set_next node head_to s) (\<lambda>s.
     bind_res (set_next head_to head_from_first s) (\<lambda>s.
     set_prev head_from_first head_to s))))))))"

section \<open>C strings\<close>

text \<open>\<^verbatim>\<open>strlen\<close>: the number of bytes before the first NUL; running off the buffer is a
  fault.\<close>

definition strlen_bytes :: "string \<Rightarrow> nat res" where
  "strlen_bytes b = (if NUL \<in> set b then Inr (length (takeWhile (\<lambda>c. c \<noteq> NUL) b))
                     else Inl Out_of_bounds)"

definition strlen :: "state \<Rightarrow> addr \<Rightarrow> nat res" where
  "strlen s p = (case buf_at s p of None \<Rightarrow> Inl Invalid_pointer | Some b \<Rightarrow> strlen_bytes b)"

text \<open>\<^verbatim>\<open>strcmp\<close>: bytes are compared as \<^verbatim>\<open>unsigned char\<close>; the result is the difference of
  the first pair of bytes that differ, 0 when both strings end together.\<close>

fun strcmp_bytes :: "string \<Rightarrow> string \<Rightarrow> int res" where
  "strcmp_bytes [] ys = Inl Out_of_bounds"
| "strcmp_bytes (x # xs) [] = Inl Out_of_bounds"
| "strcmp_bytes (x # xs) (y # ys) =
     (if x \<noteq> y then Inr (int (of_char x) - int (of_char y))
      else if x = NUL then Inr 0
      else strcmp_bytes xs ys)"

definition strcmp :: "state \<Rightarrow> addr \<Rightarrow> addr \<Rightarrow> int res" where
  "strcmp s a b = (case buf_at s a of None \<Rightarrow> Inl Invalid_pointer
     | Some x \<Rightarrow> (case buf_at s b of None \<Rightarrow> Inl Invalid_pointer
     | Some y \<Rightarrow> strcmp_bytes x y))"

text \<open>
  \<^verbatim>\<open>strncpy(dst, src, n)\<close> writes exactly \<open>n\<close> bytes: the bytes of \<open>src\<close> before its first
  NUL, at most \<open>n\<close> of them, then NUL bytes up to \<open>n\<close>. It reads \<open>src\<close> until a NUL or
  \<open>n\<close> bytes, whichever comes first. The two objects must not overlap.
\<close>

definition strncpy :: "addr \<Rightarrow> addr \<Rightarrow> nat \<Rightarrow> state \<Rightarrow> state res" where
  "strncpy dst src n s =
     (case buf_at s dst of None \<Rightarrow> Inl Invalid_pointer
      | Some d \<Rightarrow> (case buf_at s src of None \<Rightarrow> Inl Invalid_pointer
      | Some b \<Rightarrow>
          let body = takeWhile (\<lambda>c. c \<noteq> NUL) (take n b) in
          if dst = src \<and> 0 < n then Inl Invalid_pointer
          else if length d < n then Inl Out_of_bounds
          else if length body = length b \<and> length b < n then Inl Out_of_bounds
          else Inr (s\<lparr>bufs := (bufs s)(dst \<mapsto>
                 body @ replicate (n - length body) NUL @ drop n d)\<rparr>)))"

section \<open>Running code that may not return\<close>

text \<open>
  A function of \<^verbatim>\<open>queue.c\<close> with a loop, or a recursive one, yields \<open>None\<close> when it does not
  return, \<open>Some (Inl e)\<close> when it faults and \<open>Some (Inr x)\<close> when it returns \<open>x\<close>.
\<close>

definition bind_opt :: "'a res \<Rightarrow> ('a \<Rightarrow> 'b res option) \<Rightarrow> 'b res option" where
  "bind_opt m f = (case m of Inl e \<Rightarrow> Some (Inl e) | Inr x \<Rightarrow> f x)"

definition bind_run :: "'a res option \<Rightarrow> ('a \<Rightarrow> 'b res option) \<Rightarrow> 'b res option" where
  "bind_run m f = Option.bind m (\<lambda>r. case r of Inl e \<Rightarrow> Some (Inl e) | Inr x \<Rightarrow> f x)"

lemma bind_opt_mono [partial_function_mono]:
  assumes "\<And>x. mono_option (\<lambda>f. g x f)"
  shows "mono_option (\<lambda>f. bind_opt m (\<lambda>x. g x f))"
  unfolding bind_opt_def using assms by (cases m) (simp_all add: option.const_mono)

lemma bind_run_mono [partial_function_mono]:
  assumes "mono_option (\<lambda>f. m f)" and "\<And>x. mono_option (\<lambda>f. g x f)"
  shows "mono_option (\<lambda>f. bind_run (m f) (\<lambda>x. g x f))"
  unfolding bind_run_def
proof (rule bind_mono [OF assms(1)])
  fix y
  show "mono_option (\<lambda>f. case y of Inl e \<Rightarrow> Some (Inl e) | Inr x \<Rightarrow> g x f)"
    by (cases y) (simp_all add: option.const_mono assms(2))
qed

section \<open>The queue operations of \<^verbatim>\<open>queue.c\<close>\<close>

definition q_new :: "addr \<Rightarrow> state \<Rightarrow> (addr \<times> state) res" where
  "q_new m s =
     (if m = NULL then Inr (NULL, s) else
      let head = m; s = malloc_list_head head s in
      bind_res (INIT_LIST_HEAD head s) (\<lambda>s. Inr (head, s)))"

text \<open>
  \<^verbatim>\<open>int length = strlen(s) + 1\<close>: the length is narrowed to a 32-bit \<^verbatim>\<open>int\<close>, and widened to
  a 64-bit \<^verbatim>\<open>size_t\<close> again where \<^verbatim>\<open>malloc\<close> and \<^verbatim>\<open>strncpy\<close> take it. \<open>m1\<close> and \<open>m2\<close> are
  the outcomes of the two calls of \<^verbatim>\<open>malloc\<close>.
\<close>

definition create_element :: "addr \<Rightarrow> addr \<Rightarrow> addr \<Rightarrow> state \<Rightarrow> (addr \<times> state) res" where
  "create_element str m1 m2 s =
     (if m1 = NULL then Inr (NULL, s) else
      let elem = m1; s = malloc_element elem s in
      bind_res (strlen s str) (\<lambda>n.
      let length = sint (word_of_nat (n + 1) :: 32 word);
          size = unat (word_of_int length :: 64 word);
          s = (if m2 = NULL then s else malloc_buf m2 size s) in
      bind_res (set_value elem m2 s) (\<lambda>s.
      bind_res (get_value s elem) (\<lambda>v.
      if v = NULL then bind_res (free_element elem s) (\<lambda>s. Inr (NULL, s)) else
      bind_res (strncpy v str size s) (\<lambda>s.
      bind_res (store_byte str (length - 1) NUL s) (\<lambda>s.
      Inr (elem, s)))))))"

definition q_insert_head :: "addr \<Rightarrow> addr \<Rightarrow> addr \<Rightarrow> addr \<Rightarrow> state \<Rightarrow> (bool \<times> state) res" where
  "q_insert_head head str m1 m2 s =
     (if head = NULL then Inr (False, s) else
      bind_res (create_element str m1 m2 s) (\<lambda>(elem, s).
      if elem = NULL then Inr (False, s) else
      bind_res (list_add elem head s) (\<lambda>s. Inr (True, s))))"

definition q_insert_tail :: "addr \<Rightarrow> addr \<Rightarrow> addr \<Rightarrow> addr \<Rightarrow> state \<Rightarrow> (bool \<times> state) res" where
  "q_insert_tail head str m1 m2 s =
     (if head = NULL then Inr (False, s) else
      bind_res (create_element str m1 m2 s) (\<lambda>(elem, s).
      if elem = NULL then Inr (False, s) else
      bind_res (list_add_tail elem head s) (\<lambda>s. Inr (True, s))))"

text \<open>\<^verbatim>\<open>bufsize\<close> is a \<^verbatim>\<open>size_t\<close>: \<^verbatim>\<open>bufsize - 1\<close> wraps around at 0.\<close>

definition q_remove_head :: "addr \<Rightarrow> addr \<Rightarrow> 64 word \<Rightarrow> state \<Rightarrow> (addr \<times> state) res" where
  "q_remove_head head sp bufsize s =
     (if head = NULL then Inr (NULL, s) else
      bind_res (list_empty s head) (\<lambda>e. if e then Inr (NULL, s) else
      bind_res (get_next s head) (\<lambda>elem.
      bind_res (if sp \<noteq> NULL then
                  bind_res (get_value s elem) (\<lambda>v.
                  bind_res (strncpy sp v (unat bufsize) s) (\<lambda>s.
                  store_byte sp (int (unat (bufsize - 1))) NUL s))
                else Inr s) (\<lambda>s.
      bind_res (get_next s head) (\<lambda>first.
      bind_res (list_del first s) (\<lambda>s.
      Inr (elem, s)))))))"

definition q_remove_tail :: "addr \<Rightarrow> addr \<Rightarrow> 64 word \<Rightarrow> state \<Rightarrow> (addr \<times> state) res" where
  "q_remove_tail head sp bufsize s =
     (if head = NULL then Inr (NULL, s) else
      bind_res (list_empty s head) (\<lambda>e. if e then Inr (NULL, s) else
      bind_res (get_prev s head) (\<lambda>elem.
      bind_res (if sp \<noteq> NULL then
                  bind_res (get_value s elem) (\<lambda>v.
                  bind_res (strncpy sp v (unat bufsize) s) (\<lambda>s.
                  store_byte sp (int (unat (bufsize - 1))) NUL s))
                else Inr s) (\<lambda>s.
      bind_res (get_prev s head) (\<lambda>last.
      bind_res (list_del last s) (\<lambda>s.
      Inr (elem, s)))))))"

definition q_release_element :: "addr \<Rightarrow> state \<Rightarrow> state res" where
  "q_release_element e s =
     bind_res (get_value s e) (\<lambda>v.
     bind_res (free_buf v s) (\<lambda>s.
     free_element e s))"

partial_function (option) q_mid_loop :: "state \<Rightarrow> addr \<Rightarrow> addr \<Rightarrow> addr \<Rightarrow> addr res option" where
  "q_mid_loop s head slow fast =
     (if fast = NULL \<or> fast = head then Some (Inr slow) else
      bind_opt (get_next s fast) (\<lambda>fast_next.
      if fast_next = head then Some (Inr slow) else
      bind_opt (get_next s fast_next) (\<lambda>fast'.
      bind_opt (get_next s slow) (\<lambda>slow'.
      q_mid_loop s head slow' fast'))))"

definition q_mid :: "addr \<Rightarrow> state \<Rightarrow> addr res option" where
  "q_mid head s =
     (if head = NULL then Some (Inr head) else
      bind_opt (list_empty s head) (\<lambda>e. if e then Some (Inr head) else
      bind_opt (get_next s head) (\<lambda>slow.
      bind_opt (get_next s slow) (\<lambda>fast.
      q_mid_loop s head slow fast))))"

definition q_delete_mid :: "addr \<Rightarrow> state \<Rightarrow> (bool \<times> state) res option" where
  "q_delete_mid head s =
     (if head = NULL then Some (Inr (False, s)) else
      bind_opt (list_empty s head) (\<lambda>e. if e then Some (Inr (False, s)) else
      bind_run (q_mid head s) (\<lambda>mid.
      bind_opt (list_del mid s) (\<lambda>s.
      bind_opt (q_release_element mid s) (\<lambda>s.
      Some (Inr (True, s)))))))"

definition cmp :: "state \<Rightarrow> addr \<Rightarrow> addr \<Rightarrow> int res" where
  "cmp s e1 e2 =
     bind_res (get_value s e1) (\<lambda>a.
     bind_res (get_value s e2) (\<lambda>b.
     strcmp s a b))"

text \<open>The loop of \<^verbatim>\<open>q_delete_dup\<close>, \<^verbatim>\<open>list_for_each_safe (node, safe, head)\<close>; \<open>cur\<close> is the
  element kept last, null before the first one.\<close>

partial_function (option) q_delete_dup_loop ::
    "state \<Rightarrow> addr \<Rightarrow> addr \<Rightarrow> addr \<Rightarrow> addr \<Rightarrow> state res option" where
  "q_delete_dup_loop s head node safe cur =
     (if node = head then Some (Inr s) else
      let entry = node in
      bind_opt (if cur \<noteq> NULL then bind_res (cmp s cur entry) (\<lambda>c. Inr (c = 0))
                else Inr False) (\<lambda>dup.
      bind_opt (if dup then
                  bind_res (list_del node s) (\<lambda>s.
                  bind_res (q_release_element entry s) (\<lambda>s. Inr (s, cur)))
                else Inr (s, entry)) (\<lambda>(s, cur).
      bind_opt (get_next s safe) (\<lambda>safe'.
      q_delete_dup_loop s head safe safe' cur))))"

definition q_delete_dup :: "addr \<Rightarrow> state \<Rightarrow> (bool \<times> state) res option" where
  "q_delete_dup head s =
     (if head = NULL then Some (Inr (False, s)) else
      bind_opt (list_empty s head) (\<lambda>e. if e then Some (Inr (True, s)) else
      bind_opt (get_next s head) (\<lambda>node.
      bind_opt (get_next s node) (\<lambda>safe.
      bind_run (q_delete_dup_loop s head node safe NULL) (\<lambda>s.
      Some (Inr (True, s)))))))"

text \<open>The loop of \<^verbatim>\<open>q_swap\<close>, \<^verbatim>\<open>list_for_each_entry (entry, head, list)\<close>, whose body moves
  \<open>entry\<close> one step itself.\<close>

partial_function (option) q_swap_loop :: "state \<Rightarrow> addr \<Rightarrow> addr \<Rightarrow> state res option" where
  "q_swap_loop s head entry =
     (if entry = head then Some (Inr s) else
      bind_opt (get_next s entry) (\<lambda>next_entry.
      if next_entry \<noteq> head then
        bind_opt (get_value s entry) (\<lambda>temp.
        bind_opt (get_value s next_entry) (\<lambda>v.
        bind_opt (set_value entry v s) (\<lambda>s.
        bind_opt (set_value next_entry temp s) (\<lambda>s.
        let entry = next_entry in
        bind_opt (get_next s entry) (\<lambda>entry'.
        q_swap_loop s head entry')))))
      else Some (Inr s)))"

definition q_swap :: "addr \<Rightarrow> state \<Rightarrow> state res option" where
  "q_swap head s =
     (if head = NULL then Some (Inr s) else
      bind_opt (list_empty s head) (\<lambda>e. if e then Some (Inr s) else
      bind_opt (get_next s head) (\<lambda>entry.
      q_swap_loop s head entry)))"

text \<open>The loop of \<^verbatim>\<open>q_reverse\<close>, \<^verbatim>\<open>list_for_each_safe (node, safe, head)\<close>.\<close>

partial_function (option) q_reverse_loop ::
    "state \<Rightarrow> addr \<Rightarrow> addr \<Rightarrow> addr \<Rightarrow> state res option" where
  "q_reverse_loop s head node safe =
     (if node = head then Some (Inr s) else
      bind_opt (get_prev s node) (\<lambda>prev.
      bind_opt (get_next s node) (\<lambda>next.
      bind_opt (set_prev node next s) (\<lambda>s.
      bind_opt (set_next node prev s) (\<lambda>s.
      bind_opt (get_next s safe) (\<lambda>safe'.
      q_reverse_loop s head safe safe'))))))"

definition q_reverse :: "addr \<Rightarrow> state \<Rightarrow> state res option" where
  "q_reverse head s =
     (if head = NULL then Some (Inr s) else
      bind_opt (list_empty s head) (\<lambda>e. if e then Some (Inr s) else
      bind_opt (get_next s head) (\<lambda>node.
      bind_opt (get_next s node) (\<lambda>safe.
      bind_run (q_reverse_loop s head node safe) (\<lambda>s.
      bind_opt (get_next s head) (\<lambda>head_next.
      bind_opt (get_prev s head) (\<lambda>head_prev.
      bind_opt (set_next head head_prev s) (\<lambda>s.
      Some (set_prev head head_next s)))))))))"

text \<open>The loop of \<^verbatim>\<open>merge\<close>.\<close>

partial_function (option) merge_loop ::
    "state \<Rightarrow> addr \<Rightarrow> addr \<Rightarrow> addr \<Rightarrow> state res option" where
  "merge_loop s a b dummy =
     bind_opt (list_empty s a) (\<lambda>ea. if ea then Some (Inr s) else
     bind_opt (list_empty s b) (\<lambda>eb. if eb then Some (Inr s) else
     bind_opt (get_next s a) (\<lambda>a_first.
     bind_opt (get_next s b) (\<lambda>b_first.
     bind_opt (cmp s a_first b_first) (\<lambda>c.
     if c < 0 then
       bind_opt (get_next s a) (\<lambda>n.
       bind_opt (list_move_tail n dummy s) (\<lambda>s.
       merge_loop s a b dummy))
     else
       bind_opt (get_next s b) (\<lambda>n.
       bind_opt (list_move_tail n dummy s) (\<lambda>s.
       merge_loop s a b dummy)))))))"

text \<open>\<open>frame\<close> is the address of the function's frame, where its local \<^verbatim>\<open>dummy\<close> lives.\<close>

definition merge :: "addr \<Rightarrow> addr \<Rightarrow> addr \<Rightarrow> state \<Rightarrow> state res option" where
  "merge a b frame s =
     (let dummy = frame; s = LIST_HEAD dummy s in
      bind_opt (INIT_LIST_HEAD dummy s) (\<lambda>s.
      bind_run (merge_loop s a b dummy) (\<lambda>s.
      bind_opt (list_empty s a) (\<lambda>ea.
      bind_opt (if \<not> ea then list_splice_tail_init a dummy s else Inr s) (\<lambda>s.
      bind_opt (list_empty s b) (\<lambda>eb.
      bind_opt (if \<not> eb then list_splice_tail_init b dummy s else Inr s) (\<lambda>s.
      bind_opt (list_splice dummy a s) (\<lambda>s.
      Some (Inr (end_of_scope dummy s))))))))))"

text \<open>\<open>frame\<close> is the address of the function's frame, where its local \<^verbatim>\<open>new_head\<close> lives;
  the frames of the functions it calls start one address further.\<close>

partial_function (option) q_sort :: "addr \<Rightarrow> addr \<Rightarrow> state \<Rightarrow> state res option" where
  "q_sort head frame s =
     (if head = NULL then Some (Inr s) else
      bind_opt (list_empty s head) (\<lambda>e. if e then Some (Inr s) else
      bind_opt (get_prev s head) (\<lambda>head_prev.
      bind_opt (get_next s head) (\<lambda>head_next.
      if head_prev = head_next then Some (Inr s) else
      bind_run (q_mid head s) (\<lambda>mid.
      let new_head = frame; s = LIST_HEAD new_head s in
      bind_opt (INIT_LIST_HEAD new_head s) (\<lambda>s.
      bind_opt (list_cut_position new_head head mid s) (\<lambda>s.
      bind_run (q_sort head (frame + 1) s) (\<lambda>s.
      bind_run (q_sort new_head (frame + 1) s) (\<lambda>s.
      bind_run (merge head new_head (frame + 1) s) (\<lambda>s.
      Some (Inr (end_of_scope new_head s))))))))))))"

section \<open>Abstraction: the ring held by a store\<close>

definition next_of :: "state \<Rightarrow> addr \<rightharpoonup> addr" where
  "next_of s p = map_option nxt (node_at s p)"

definition prev_of :: "state \<Rightarrow> addr \<rightharpoonup> addr" where
  "prev_of s p = map_option prv (node_at s p)"

definition live :: "state \<Rightarrow> addr \<Rightarrow> bool" where
  "live s p \<longleftrightarrow> node_at s p \<noteq> None"

definition upd_next :: "addr \<Rightarrow> addr \<Rightarrow> state \<Rightarrow> state" where
  "upd_next p q s =
     (if live s p then s\<lparr>nodes := (nodes s)(p \<mapsto> (the (nodes s p))\<lparr>nxt := q\<rparr>)\<rparr> else s)"

definition upd_prev :: "addr \<Rightarrow> addr \<Rightarrow> state \<Rightarrow> state" where
  "upd_prev p q s =
     (if live s p then s\<lparr>nodes := (nodes s)(p \<mapsto> (the (nodes s p))\<lparr>prv := q\<rparr>)\<rparr> else s)"

fun links :: "(addr \<rightharpoonup> addr) \<Rightarrow> (addr \<rightharpoonup> addr) \<Rightarrow> addr list \<Rightarrow> bool" where
  "links N P (x # y # zs) \<longleftrightarrow> N x = Some y \<and> P y = Some x \<and> links N P (y # zs)"
| "links N P zs \<longleftrightarrow> True"

definition cyc :: "(addr \<rightharpoonup> addr) \<Rightarrow> (addr \<rightharpoonup> addr) \<Rightarrow> addr \<Rightarrow> addr list \<Rightarrow> bool" where
  "cyc N P h ps \<longleftrightarrow> distinct (h # ps) \<and> links N P (h # ps @ [h])"

definition ring :: "state \<Rightarrow> addr \<Rightarrow> addr list \<Rightarrow> bool" where
  "ring s h ps \<longleftrightarrow> cyc (next_of s) (prev_of s) h ps"

definition frame :: "addr set \<Rightarrow> state \<Rightarrow> state \<Rightarrow> bool" where
  "frame A s s' \<longleftrightarrow>
     (\<forall>y. y \<notin> A \<longrightarrow> next_of s' y = next_of s y \<and> prev_of s' y = prev_of s y) \<and>
     (\<forall>y. live s' y = live s y) \<and> elem_value s' = elem_value s \<and> bufs s' = bufs s"

definition elem_ok :: "state \<Rightarrow> addr \<Rightarrow> bool" where
  "elem_ok s p \<longleftrightarrow> (\<exists>v b. value_at s p = Some v \<and> buf_at s v = Some b \<and> NUL \<in> set b)"

definition cstr :: "state \<Rightarrow> addr \<Rightarrow> string" where
  "cstr s p = takeWhile (\<lambda>c. c \<noteq> NUL) (the (buf_at s (the (value_at s p))))"

fun chain :: "addr \<Rightarrow> addr list \<Rightarrow> addr \<Rightarrow> (addr \<times> list_head) list" where
  "chain p [] h = []"
| "chain p (x # xs) h = (x, \<lparr>nxt = hd (xs @ [h]), prv = p\<rparr>) # chain x xs h"

definition queue_state :: "addr \<Rightarrow> (addr \<times> addr \<times> string) list \<Rightarrow> state" where
  "queue_state h es =
     \<lparr>nodes = map_of ((h, \<lparr>nxt = hd (map fst es @ [h]), prv = last (h # map fst es)\<rparr>)
                        # chain h (map fst es) h),
      elem_value = map_of (map (\<lambda>(p, v, str). (p, v)) es),
      bufs = map_of (map (\<lambda>(p, v, str). (v, str @ [NUL])) es)\<rparr>"

definition abcdef :: state where
  "abcdef = queue_state 1 [(2, 12, ''a''), (3, 13, ''b''), (4, 14, ''c''),
                           (5, 15, ''d''), (6, 16, ''e''), (7, 17, ''f'')]"

definition strncpy_bytes :: "string \<Rightarrow> string \<Rightarrow> nat \<Rightarrow> string" where
  "strncpy_bytes d b n =
     (let body = takeWhile (\<lambda>c. c \<noteq> NUL) (take n b)
      in body @ replicate (n - length body) NUL @ drop n d)"

text \<open>What the copy to the output buffer does: the state after \<^verbatim>\<open>strncpy\<close> and the
  terminator store, when \<open>1 \<le> bufsize \<le> capacity\<close>.\<close>

definition copy_out :: "addr \<Rightarrow> string \<Rightarrow> string \<Rightarrow> 64 word \<Rightarrow> state \<Rightarrow> state" where
  "copy_out sp d b bufsize s =
     s\<lparr>bufs := (bufs s)(sp \<mapsto> (strncpy_bytes d b (unat bufsize))[unat bufsize - 1 := NUL])\<rparr>"

definition empty_queue :: state where
  "empty_queue = (queue_state 1 [])\<lparr>bufs := [9 \<mapsto> ''xy'']\<rparr>"

definition abcdef_out :: state where
  "abcdef_out = abcdef\<lparr>bufs := (bufs abcdef)(9 \<mapsto> ''wxyz'')\<rparr>"

text \<open>The effect of \<^verbatim>\<open>swap\<close> as the specification words it: the payloads of each adjacent
  pair are exchanged, the last element of an odd-length list is left alone.\<close>

fun swap_pairs :: "'a list \<Rightarrow> 'a list" where
  "swap_pairs [] = []"
| "swap_pairs [x] = [x]"
| "swap_pairs (x # y # zs) = y # x # swap_pairs zs"

definition q1234 :: state where
  "q1234 = queue_state 1 [(2, 12, ''1''), (3, 13, ''2''), (4, 14, ''3''), (5, 15, ''4'')]"

definition q123 :: state where
  "q123 = queue_state 1 [(2, 12, ''1''), (3, 13, ''2''), (4, 14, ''3'')]"

text \<open>The order in which \<^verbatim>\<open>merge\<close> emits the elements of its two rings: the front of \<open>a\<close>
  goes first only when its key is strictly smaller than the key of the front of \<open>b\<close>.\<close>

fun merge_order :: "('a \<Rightarrow> string) \<Rightarrow> 'a list \<Rightarrow> 'a list \<Rightarrow> 'a list" where
  "merge_order k [] bs = bs"
| "merge_order k (a # as) [] = a # as"
| "merge_order k (a # as) (b # bs) =
     (if k a < k b then a # merge_order k as (b # bs) else b # merge_order k (a # as) bs)"






definition dbacbe :: state where
  "dbacbe = queue_state 1 [(2, 12, ''d''), (3, 13, ''b''), (4, 14, ''a''),
                           (5, 15, ''c''), (6, 16, ''b''), (7, 17, ''e'')]"

text \<open>What the loop of \<^verbatim>\<open>q_delete_dup\<close> keeps: an element goes when its key is the key of the
  element kept last (\<open>c\<close>, \<open>None\<close> before the first one).\<close>

fun dedup :: "('a \<Rightarrow> string) \<Rightarrow> string option \<Rightarrow> 'a list \<Rightarrow> 'a list" where
  "dedup k c [] = []"
| "dedup k c (x # xs) = (if c = Some (k x) then dedup k c xs else x # dedup k (Some (k x)) xs)"

text \<open>The state after \<^verbatim>\<open>q_release_element\<close> of the element \<open>x\<close> whose string is \<open>v\<close>.\<close>

definition released :: "addr \<Rightarrow> addr \<Rightarrow> state \<Rightarrow> state" where
  "released x v s = s\<lparr>bufs := (bufs s)(v := None), nodes := (nodes s)(x := None),
                       elem_value := (elem_value s)(x := None)\<rparr>"

definition strptr :: "state \<Rightarrow> addr \<Rightarrow> addr" where
  "strptr s p = the (value_at s p)"

definition aabccc :: state where
  "aabccc = queue_state 1 [(2, 12, ''a''), (3, 13, ''a''), (4, 14, ''b''),
                           (5, 15, ''c''), (6, 16, ''c''), (7, 17, ''c'')]"

text \<open>The state after a successful \<^verbatim>\<open>create_element\<close>: a fresh element \<open>m1\<close> whose value \<open>m2\<close> is
  a fresh buffer holding \<open>copy\<close>, and the bytes \<open>b\<close> at the argument \<open>str\<close>.\<close>

definition created :: "addr \<Rightarrow> addr \<Rightarrow> string \<Rightarrow> addr \<Rightarrow> string \<Rightarrow> state \<Rightarrow> state" where
  "created m1 m2 copy str b s =
     s\<lparr>nodes := (nodes s)(m1 \<mapsto> \<lparr>nxt = NULL, prv = NULL\<rparr>),
       elem_value := (elem_value s)(m1 \<mapsto> m2),
       bufs := (bufs s)(m2 \<mapsto> copy, str \<mapsto> b)\<rparr>"

definition fresh_node :: "state \<Rightarrow> addr \<Rightarrow> bool" where
  "fresh_node s m \<longleftrightarrow> m \<noteq> NULL \<and> nodes s m = None \<and> elem_value s m = None"

definition fresh_buf :: "state \<Rightarrow> addr \<Rightarrow> bool" where
  "fresh_buf s m \<longleftrightarrow> m \<noteq> NULL \<and> bufs s m = None"

text \<open>A string of \<open>2 ^ 32 + 1\<close> characters and its terminator.\<close>

definition long_string :: string where
  "long_string = CHR ''a'' # CHR ''a'' # replicate (2 ^ 32 - 1) (CHR ''a'') @ [NUL]"

definition long_input :: state where
  "long_input = (queue_state 1 [])\<lparr>bufs := [9 \<mapsto> long_string]\<rparr>"

text \<open>The operations of \<^verbatim>\<open>queue.c\<close> that change a queue, with their arguments other than the
  queue itself: the string and the two outcomes of \<^verbatim>\<open>malloc\<close> for an insertion, the output
  buffer and its size for a removal, the address of the stack frame for the sort.\<close>

datatype qop =
    Insert_head addr addr addr
  | Insert_tail addr addr addr
  | Remove_head addr "64 word"
  | Remove_tail addr "64 word"
  | Delete_mid
  | Delete_dup
  | Swap
  | Reverse
  | Sort addr

fun run_op :: "qop \<Rightarrow> addr \<Rightarrow> state \<Rightarrow> state res option" where
  "run_op (Insert_head str m1 m2) head s =
     Some (bind_res (q_insert_head head str m1 m2 s) (\<lambda>(ok, s). Inr s))"
| "run_op (Insert_tail str m1 m2) head s =
     Some (bind_res (q_insert_tail head str m1 m2 s) (\<lambda>(ok, s). Inr s))"
| "run_op (Remove_head sp bufsize) head s =
     Some (bind_res (q_remove_head head sp bufsize s) (\<lambda>(elem, s). Inr s))"
| "run_op (Remove_tail sp bufsize) head s =
     Some (bind_res (q_remove_tail head sp bufsize s) (\<lambda>(elem, s). Inr s))"
| "run_op Delete_mid head s = bind_run (q_delete_mid head s) (\<lambda>(ok, s). Some (Inr s))"
| "run_op Delete_dup head s = bind_run (q_delete_dup head s) (\<lambda>(ok, s). Some (Inr s))"
| "run_op Swap head s = q_swap head s"
| "run_op Reverse head s = q_reverse head s"
| "run_op (Sort stack) head s = q_sort head stack s"

text \<open>
  What each operation needs of the state it is run in, \<open>ps\<close> being the elements of the
  queue in traversal order.

  \<^item> An insertion: each \<^verbatim>\<open>malloc\<close> returns null or fresh storage; unless the first one
    fails, the argument is a NUL-terminated string; and if both succeed, the length with
    the terminator is positive once narrowed to \<^verbatim>\<open>int\<close>.
  \<^item> A removal from a queue that is not empty, with an output buffer: the buffer has at
    least \<open>bufsize \<ge> 1\<close> bytes, the element to remove holds a NUL-terminated string, and
    that string is not the output buffer.
  \<^item> \<^verbatim>\<open>q_delete_mid\<close> on a queue that is not empty: the middle element holds a string.
  \<^item> \<^verbatim>\<open>q_delete_dup\<close>: every element holds a NUL-terminated string, no two the same
    buffer.
  \<^item> \<^verbatim>\<open>q_swap\<close>: every node of the ring is an element.
  \<^item> \<^verbatim>\<open>q_sort\<close>: every element holds a NUL-terminated string, and the frames of the
    recursion lie above every live node.
\<close>

definition insertable :: "state \<Rightarrow> addr \<Rightarrow> addr \<Rightarrow> addr \<Rightarrow> bool" where
  "insertable s str m1 m2 \<longleftrightarrow>
     m1 = NULL \<or>
     (fresh_node s m1 \<and>
      (case buf_at s str of None \<Rightarrow> False
       | Some b \<Rightarrow> NUL \<in> set b \<and>
           (m2 = NULL \<or>
            (fresh_buf s m2 \<and>
             0 < sint (word_of_nat (length (takeWhile (\<lambda>c. c \<noteq> NUL) b) + 1) :: 32 word)))))"

definition removable :: "state \<Rightarrow> addr \<Rightarrow> addr \<Rightarrow> 64 word \<Rightarrow> bool" where
  "removable s x sp bufsize \<longleftrightarrow>
     sp = NULL \<or>
     (case buf_at s sp of None \<Rightarrow> False
      | Some d \<Rightarrow> bufsize \<noteq> 0 \<and> unat bufsize \<le> length d \<and> elem_ok s x \<and> strptr s x \<noteq> sp)"

fun allowed :: "state \<Rightarrow> addr list \<Rightarrow> qop \<Rightarrow> bool" where
  "allowed s ps (Insert_head str m1 m2) = insertable s str m1 m2"
| "allowed s ps (Insert_tail str m1 m2) = insertable s str m1 m2"
| "allowed s ps (Remove_head sp bufsize) = (ps = [] \<or> removable s (hd ps) sp bufsize)"
| "allowed s ps (Remove_tail sp bufsize) = (ps = [] \<or> removable s (last ps) sp bufsize)"
| "allowed s ps Delete_mid = (ps = [] \<or> elem_ok s (ps ! ((length ps - 1) div 2)))"
| "allowed s ps Delete_dup = ((\<forall>p\<in>set ps. elem_ok s p) \<and> distinct (map (strptr s) ps))"
| "allowed s ps Swap = (\<forall>p\<in>set ps. value_at s p \<noteq> None)"
| "allowed s ps Reverse = True"
| "allowed s ps (Sort stack) = ((\<forall>p\<in>set ps. elem_ok s p) \<and> (\<forall>p. live s p \<longrightarrow> p < stack))"

text \<open>
  The states a queue goes through: \<^verbatim>\<open>q_new\<close> makes it, and each operation that is run where
  it is allowed, and that returns, takes it to the next state.
\<close>

inductive reachable :: "addr \<Rightarrow> state \<Rightarrow> bool" for head where
  new: "head \<noteq> NULL \<Longrightarrow> q_new head s0 = Inr (head, s) \<Longrightarrow> reachable head s"
| step: "reachable head s \<Longrightarrow> ring s head ps \<Longrightarrow> allowed s ps op \<Longrightarrow>
         run_op op head s = Some (Inr s') \<Longrightarrow> reachable head s'"

text \<open>A store with the string \<^verbatim>\<open>hello\<close> at address 9 and no queue; the store after
  \<^verbatim>\<open>q_new\<close> has put an empty queue at address 1; and the store after the string has been
  inserted into that queue.\<close>

definition hello_store :: state where
  "hello_store = \<lparr>nodes = Map.empty, elem_value = Map.empty, bufs = [9 \<mapsto> ''hello'' @ [NUL]]\<rparr>"

definition hello_queue :: state where
  "hello_queue = (queue_state 1 [])\<lparr>bufs := [9 \<mapsto> ''hello'' @ [NUL]]\<rparr>"

definition hello_inserted :: state where
  "hello_inserted =
     (queue_state 1 [(2, 12, ''hello'')])\<lparr>bufs := [12 \<mapsto> ''hello'' @ [NUL], 9 \<mapsto> ''hello'' @ [NUL]]\<rparr>"

section \<open>Properties of the list primitive\<close>

lemma bind_res_simps [simp]:
  "bind_res (Inr x) f = f x" "bind_res (Inl e) f = Inl e"
  by (simp_all add: bind_res_def)

lemma bind_opt_simps [simp]:
  "bind_opt (Inr x) f = f x" "bind_opt (Inl e) f = Some (Inl e)"
  by (simp_all add: bind_opt_def)

lemma bind_run_simps [simp]:
  "bind_run (Some (Inr x)) f = f x" "bind_run (Some (Inl e)) f = Some (Inl e)"
  "bind_run None f = None"
  by (simp_all add: bind_run_def)

lemma live_next_of: "live s p \<longleftrightarrow> next_of s p \<noteq> None"
  by (simp add: live_def next_of_def)

lemma live_prev_of: "live s p \<longleftrightarrow> prev_of s p \<noteq> None"
  by (simp add: live_def prev_of_def)

lemma next_of_live [simp]: "next_of s p = Some q \<Longrightarrow> live s p"
  by (simp add: live_next_of)

lemma prev_of_live [simp]: "prev_of s p = Some q \<Longrightarrow> live s p"
  by (simp add: live_prev_of)

lemma live_not_NULL: "live s p \<Longrightarrow> p \<noteq> NULL"
  by (auto simp: live_def node_at_def split: if_splits)

lemma get_next_eq [simp]: "next_of s p = Some q \<Longrightarrow> get_next s p = Inr q"
  by (auto simp: next_of_def get_next_def)

lemma get_prev_eq [simp]: "prev_of s p = Some q \<Longrightarrow> get_prev s p = Inr q"
  by (auto simp: prev_of_def get_prev_def)

lemma set_next_eq [simp]: "live s p \<Longrightarrow> set_next p q s = Inr (upd_next p q s)"
  by (auto simp: live_def set_next_def upd_next_def node_at_def split: if_splits)

lemma set_prev_eq [simp]: "live s p \<Longrightarrow> set_prev p q s = Inr (upd_prev p q s)"
  by (auto simp: live_def set_prev_def upd_prev_def node_at_def split: if_splits)

lemma live_upd_next [simp]: "live (upd_next p q s) x = live s x"
  by (auto simp: live_def upd_next_def node_at_def)

lemma live_upd_prev [simp]: "live (upd_prev p q s) x = live s x"
  by (auto simp: live_def upd_prev_def node_at_def)

lemma next_of_upd_next [simp]: "live s p \<Longrightarrow> next_of (upd_next p q s) = (next_of s)(p \<mapsto> q)"
  by (rule ext) (auto simp: live_def next_of_def upd_next_def node_at_def split: if_splits)

lemma prev_of_upd_next [simp]: "prev_of (upd_next p q s) = prev_of s"
  by (rule ext) (auto simp: live_def prev_of_def upd_next_def node_at_def split: if_splits)

lemma next_of_upd_prev [simp]: "next_of (upd_prev p q s) = next_of s"
  by (rule ext) (auto simp: live_def next_of_def upd_prev_def node_at_def split: if_splits)

lemma prev_of_upd_prev [simp]: "live s p \<Longrightarrow> prev_of (upd_prev p q s) = (prev_of s)(p \<mapsto> q)"
  by (rule ext) (auto simp: live_def prev_of_def upd_prev_def node_at_def split: if_splits)

lemma data_upd [simp]:
  "elem_value (upd_next p q s) = elem_value s" "bufs (upd_next p q s) = bufs s"
  "elem_value (upd_prev p q s) = elem_value s" "bufs (upd_prev p q s) = bufs s"
  by (simp_all add: upd_next_def upd_prev_def)

lemma links_append: "links N P (xs @ y # ys) \<longleftrightarrow> links N P (xs @ [y]) \<and> links N P (y # ys)"
proof (induction xs)
  case (Cons a xs)
  then show ?case by (cases xs) auto
qed simp

lemma links_cong:
  "\<forall>x\<in>set (butlast xs). N' x = N x \<Longrightarrow> \<forall>x\<in>set (tl xs). P' x = P x \<Longrightarrow> links N' P' xs = links N P xs"
  by (induction N P xs rule: links.induct) auto

lemma links_nth:
  "links N P xs \<Longrightarrow> Suc i < length xs \<Longrightarrow> N (xs ! i) = Some (xs ! Suc i) \<and> P (xs ! Suc i) = Some (xs ! i)"
proof (induction N P xs arbitrary: i rule: links.induct)
  case (1 N P x y zs)
  then show ?case by (cases i) auto
qed auto

lemma links_rev: "links N P xs \<Longrightarrow> links P N (rev xs)"
proof (induction N P xs rule: links.induct)
  case (1 N P x y zs)
  then have "links P N (rev (y # zs))" by simp
  moreover have "links P N [y, x]" using 1 by simp
  ultimately show ?case
    using links_append [of P N "rev zs" y "[x]"] by simp
qed auto

lemma links_upd_next [simp]: "p \<notin> set (butlast xs) \<Longrightarrow> links (N(p \<mapsto> q)) P xs = links N P xs"
  by (rule links_cong) auto

lemma links_upd_prev [simp]: "p \<notin> set (tl xs) \<Longrightarrow> links N (P(p \<mapsto> q)) xs = links N P xs"
  by (rule links_cong) auto

lemma links_del:
  assumes "links N P (as @ p # x # n # bs)" "p \<notin> set as" "n \<notin> set bs"
    "n \<notin> set (tl (as @ [p]))" "p \<notin> set (butlast (n # bs))"
  shows "links (N(p \<mapsto> n)) (P(n \<mapsto> p)) (as @ p # n # bs)"
proof -
  have 1: "links N P (as @ [p])" and 2: "links N P (n # bs)"
    using assms(1) links_append [of N P as p "x # n # bs"] by simp_all
  have "links (N(p \<mapsto> n)) (P(n \<mapsto> p)) (as @ [p])"
    using 1 assms by simp
  moreover have "links (N(p \<mapsto> n)) (P(n \<mapsto> p)) (n # bs)"
    using 2 assms by simp
  ultimately show ?thesis
    using links_append [of "N(p \<mapsto> n)" "P(n \<mapsto> p)" as p "n # bs"] by simp
qed

lemma cyc_del:
  assumes "cyc N P h (xs @ x # ys)"
  shows "cyc (N(last (h # xs) \<mapsto> hd (ys @ [h]))) (P(hd (ys @ [h]) \<mapsto> last (h # xs))) h (xs @ ys)"
proof -
  obtain as p where ap: "h # xs = as @ [p]"
    by (metis append_butlast_last_id list.distinct(1))
  obtain n bs where nb: "ys @ [h] = n # bs"
    by (cases ys) auto
  have d: "distinct (h # xs @ x # ys)" and l: "links N P (h # xs @ x # ys @ [h])"
    using assms by (auto simp: cyc_def)
  have L: "h # xs @ x # ys @ [h] = as @ p # x # n # bs"
    using ap nb by (metis append_Cons append_assoc append_Nil)
  have p: "p = last (h # xs)" using ap by (metis last_snoc)
  have n: "n = hd (ys @ [h])" using nb by (metis list.sel(1))
  have s1: "set as \<union> {p} = set (h # xs)" using ap by (metis set_append list.set(1) list.set(2) Un_insert_right sup_bot.right_neutral)
  have s2: "{n} \<union> set bs = set (ys @ [h])" using nb by (metis set_simps(2) insert_is_Un)
  have t1: "tl (as @ [p]) = xs" using ap by (metis list.sel(3))
  have t2: "butlast (n # bs) = ys" using nb by (metis butlast_snoc)
  have d1: "distinct (as @ [p])" using d by (simp flip: ap)
  have d2: "distinct (n # bs)" using d by (simp flip: nb)
  have "links (N(p \<mapsto> n)) (P(n \<mapsto> p)) (as @ p # n # bs)"
  proof (rule links_del)
    show "links N P (as @ p # x # n # bs)" using l L by simp
    show "p \<notin> set as" using d1 by simp
    show "n \<notin> set bs" using d2 by simp
    show "n \<notin> set (tl (as @ [p]))" unfolding t1 using s2 d by auto
    show "p \<notin> set (butlast (n # bs))" unfolding t2 using s1 d by auto
  qed
  moreover have "as @ p # n # bs = h # (xs @ ys) @ [h]"
    using ap nb by (metis append_Cons append_assoc append_Nil)
  ultimately show ?thesis
    using d by (simp add: cyc_def p n)
qed

lemma ring_links: "ring s h ps \<Longrightarrow> links (next_of s) (prev_of s) (h # ps @ [h])"
  by (simp add: ring_def cyc_def)

lemma ring_distinct: "ring s h ps \<Longrightarrow> distinct (h # ps)"
  by (simp add: ring_def cyc_def)

lemma ring_next: "ring s h (xs @ x # ys) \<Longrightarrow> next_of s x = Some (hd (ys @ [h]))"
  using links_append [of "next_of s" "prev_of s" "h # xs" x "ys @ [h]"]
  by (cases ys) (auto dest!: ring_links)

lemma ring_prev: "ring s h (xs @ x # ys) \<Longrightarrow> prev_of s x = Some (last (h # xs))"
proof -
  assume r: "ring s h (xs @ x # ys)"
  obtain as p where ap: "h # xs = as @ [p]"
    by (metis append_butlast_last_id list.distinct(1))
  have "links (next_of s) (prev_of s) (as @ p # x # ys @ [h])"
    using ring_links [OF r] ap by (metis append_Cons append_assoc append_Nil)
  then have "links (next_of s) (prev_of s) (p # x # ys @ [h])"
    using links_append [of _ _ as p] by blast
  then show ?thesis using ap by (metis last_snoc links.simps(1))
qed

lemma ring_head_next: "ring s h ps \<Longrightarrow> next_of s h = Some (hd (ps @ [h]))"
  by (cases ps) (auto dest!: ring_links)

lemma ring_head_prev: "ring s h ps \<Longrightarrow> prev_of s h = Some (last (h # ps))"
proof -
  assume r: "ring s h ps"
  obtain as p where ap: "h # ps = as @ [p]"
    by (metis append_butlast_last_id list.distinct(1))
  have "links (next_of s) (prev_of s) (as @ p # [h])"
    using ring_links [OF r] ap by (metis append_Cons append_assoc append_Nil)
  then have "links (next_of s) (prev_of s) (p # [h])"
    using links_append [of _ _ as p] by blast
  then show ?thesis using ap by (metis last_snoc links.simps(1))
qed

lemma ring_live: "ring s h ps \<Longrightarrow> x \<in> set (h # ps) \<Longrightarrow> live s x"
proof -
  assume r: "ring s h ps" and x: "x \<in> set (h # ps)"
  show ?thesis
  proof (cases "x = h")
    case True
    then show ?thesis using ring_head_next [OF r] by simp
  next
    case False
    then obtain xs ys where "ps = xs @ x # ys" using x by (auto simp: in_set_conv_decomp)
    then show ?thesis using ring_next [of s h xs x ys] r by simp
  qed
qed

lemma frame_refl [simp]: "frame A s s"
  by (simp add: frame_def)

lemma frame_trans: "frame A s s1 \<Longrightarrow> frame B s1 s2 \<Longrightarrow> frame (A \<union> B) s s2"
  by (simp add: frame_def)

lemma frame_mono: "frame A s s' \<Longrightarrow> A \<subseteq> B \<Longrightarrow> frame B s s'"
  by (auto simp: frame_def)

lemma frame_upd_next: "frame A s s' \<Longrightarrow> p \<in> A \<Longrightarrow> frame A s (upd_next p q s')"
proof (cases "live s' p")
  case True
  assume "frame A s s'" "p \<in> A"
  with True show ?thesis by (auto simp: frame_def)
next
  case False
  assume "frame A s s'" "p \<in> A"
  with False show ?thesis by (simp add: upd_next_def)
qed

lemma frame_upd_prev: "frame A s s' \<Longrightarrow> p \<in> A \<Longrightarrow> frame A s (upd_prev p q s')"
proof (cases "live s' p")
  case True
  assume "frame A s s'" "p \<in> A"
  with True show ?thesis by (auto simp: frame_def)
next
  case False
  assume "frame A s s'" "p \<in> A"
  with False show ?thesis by (simp add: upd_prev_def)
qed

lemma cyc_cong:
  "cyc N P h ps \<Longrightarrow> \<forall>x\<in>set (h # ps). N' x = N x \<and> P' x = P x \<Longrightarrow> cyc N' P' h ps"
  unfolding cyc_def using links_cong [of "h # ps @ [h]" N' N P' P]
  by (auto simp: butlast_append)

lemma ring_frame: "ring s h ps \<Longrightarrow> frame A s s' \<Longrightarrow> A \<inter> set (h # ps) = {} \<Longrightarrow> ring s' h ps"
  unfolding ring_def by (erule cyc_cong) (auto simp: frame_def)

lemma ring_del:
  assumes "ring s h (xs @ x # ys)"
  shows "\<exists>s'. list_del x s = Inr s' \<and> ring s' h (xs @ ys) \<and> frame (set (h # xs @ ys)) s s'"
proof -
  let ?p = "last (h # xs)" and ?n = "hd (ys @ [h])"
  have n: "next_of s x = Some ?n" and p: "prev_of s x = Some ?p"
    using assms by (rule ring_next, rule ring_prev)
  have pin: "?p \<in> set (h # xs @ ys)" and nin: "?n \<in> set (h # xs @ ys)"
    by (cases ys; auto)+
  have lp: "live s ?p" and ln: "live s ?n"
    using pin nin ring_live [OF assms] by auto
  let ?s' = "upd_next ?p ?n (upd_prev ?n ?p s)"
  have "list_del x s = Inr ?s'"
    using n p lp ln by (simp add: list_del_def)
  moreover have "ring ?s' h (xs @ ys)"
    using cyc_del [of "next_of s" "prev_of s" h xs x ys] assms lp ln by (simp add: ring_def)
  moreover have "frame (set (h # xs @ ys)) s ?s'"
    using lp ln pin nin by (auto simp: frame_def)
  ultimately show ?thesis by blast
qed

lemma links_app2:
  assumes "xs \<noteq> []" "ys \<noteq> []"
  shows "links N P (xs @ ys) \<longleftrightarrow>
    links N P xs \<and> links N P ys \<and> N (last xs) = Some (hd ys) \<and> P (hd ys) = Some (last xs)"
proof -
  obtain bx lx where xs: "xs = bx @ [lx]" using assms(1) by (metis append_butlast_last_id)
  obtain y ty where ys: "ys = y # ty" using assms(2) by (cases ys) auto
  have "links N P (xs @ ys) \<longleftrightarrow> links N P (xs @ [y]) \<and> links N P ys"
    using links_append [of N P xs y ty] ys by simp
  moreover have "links N P (xs @ [y]) \<longleftrightarrow> links N P xs \<and> links N P [lx, y]"
    using links_append [of N P bx lx "[y]"] xs by simp
  ultimately show ?thesis using xs ys by auto
qed

lemma cyc_iff:
  "cyc N P h ps \<longleftrightarrow> distinct (h # ps) \<and>
     (if ps = [] then N h = Some h \<and> P h = Some h
      else N h = Some (hd ps) \<and> P (hd ps) = Some h \<and> links N P ps \<and>
           N (last ps) = Some h \<and> P h = Some (last ps))"
proof (cases "ps = []")
  case True
  then show ?thesis by (simp add: cyc_def)
next
  case False
  have "links N P (h # ps @ [h]) \<longleftrightarrow> links N P ([h] @ ps) \<and> links N P [last ps, h]"
    using links_app2 [of "[h] @ ps" "[h]" N P] False by auto
  moreover have "links N P ([h] @ ps) \<longleftrightarrow> links N P ps \<and> N h = Some (hd ps) \<and> P (hd ps) = Some h"
    using links_app2 [of "[h]" ps N P] False by auto
  ultimately show ?thesis using False by (auto simp: cyc_def)
qed

lemma last_notin_butlast: "distinct xs \<Longrightarrow> xs \<noteq> [] \<Longrightarrow> last xs \<notin> set (butlast xs)"
  by (metis append_butlast_last_id distinct_append disjoint_iff list.set_intros(1))

lemma hd_notin_tl: "distinct xs \<Longrightarrow> xs \<noteq> [] \<Longrightarrow> hd xs \<notin> set (tl xs)"
  by (cases xs) auto

lemma in_tlD: "x \<in> set (tl xs) \<Longrightarrow> x \<in> set xs"
  by (cases xs) auto

lemma links_eqI:
  "links N P xs \<Longrightarrow> (\<And>x. x \<in> set (butlast xs) \<Longrightarrow> N' x = N x) \<Longrightarrow>
   (\<And>x. x \<in> set (tl xs) \<Longrightarrow> P' x = P x) \<Longrightarrow> links N' P' xs"
  using links_cong [of xs N' N P' P] by simp

lemma cyc_splice_tail:
  assumes "cyc N P l ls" "cyc N P h hs" "set (l # ls) \<inter> set (h # hs) = {}" "ls \<noteq> []"
  defines "N' \<equiv> N(last ls \<mapsto> h, last (h # hs) \<mapsto> hd ls, l \<mapsto> l)"
    and "P' \<equiv> P(h \<mapsto> last ls, hd ls \<mapsto> last (h # hs), l \<mapsto> l)"
  shows "cyc N' P' h (hs @ ls) \<and> cyc N' P' l []"
proof -
  have dl: "distinct (l # ls)" and dh: "distinct (h # hs)" using assms by (auto simp: cyc_def)
  have m: "hd ls \<in> set ls" "last ls \<in> set ls" using assms(4) by auto
  have bl: "\<And>x. x \<in> set (butlast ls) \<Longrightarrow> x \<noteq> last ls"
    and tl: "\<And>x. x \<in> set (tl ls) \<Longrightarrow> x \<noteq> hd ls"
    using dl assms(4) last_notin_butlast [of ls] hd_notin_tl [of ls] by auto
  have ll: "links N' P' ls"
  proof (rule links_eqI)
    show "links N P ls" using assms(1,4) by (simp add: cyc_iff)
    show "N' x = N x" if "x \<in> set (butlast ls)" for x
      using that bl [OF that] in_set_butlastD [OF that] assms(3) dl
      by (auto simp: N'_def)
    show "P' x = P x" if "x \<in> set (tl ls)" for x
      using that tl [OF that] in_tlD [OF that] assms(3) dl
      by (auto simp: P'_def)
  qed
  have lh: "hs \<noteq> [] \<Longrightarrow> links N' P' hs"
  proof (rule links_eqI)
    assume ne: "hs \<noteq> []"
    show "links N P hs" using assms(2) ne by (simp add: cyc_iff)
    show "N' x = N x" if "x \<in> set (butlast hs)" for x
      using that last_notin_butlast [of hs] in_set_butlastD [OF that] assms(3) dh ne m
      by (auto simp: N'_def)
    show "P' x = P x" if "x \<in> set (tl hs)" for x
      using that in_tlD [OF that] assms(3) dh m
      by (auto simp: P'_def)
  qed
  have e1: "N' (last ls) = Some h" "P' h = Some (last ls)"
    using m dl assms(3) by (auto simp: N'_def P'_def)
  have e2: "N' (last (h # hs)) = Some (hd ls)" "P' (hd ls) = Some (last (h # hs))"
    using m dl assms(3) by (auto simp: N'_def P'_def)
  have e3: "N' h = Some (hd hs) \<and> P' (hd hs) = Some h" if ne: "hs \<noteq> []"
  proof -
    obtain a hs' where "hs = a # hs'" using ne by (cases hs) auto
    then show ?thesis
      using assms(2,3) m dh dl by (auto simp: cyc_iff N'_def P'_def)
  qed
  have "cyc N' P' l []" by (simp add: cyc_iff N'_def P'_def)
  moreover have "cyc N' P' h (hs @ ls)"
    using ll lh e1 e2 e3 dl dh assms(3,4)
    by (cases "hs = []") (auto simp: cyc_iff links_app2)
  ultimately show ?thesis by simp
qed

lemma cyc_links: "cyc N P h ps \<Longrightarrow> ps \<noteq> [] \<Longrightarrow> links N P ps"
  by (simp add: cyc_iff)

lemma seg_butlast: "distinct xs \<Longrightarrow> x \<in> set (butlast xs) \<Longrightarrow> x \<in> set xs \<and> x \<noteq> last xs"
  using last_notin_butlast [of xs] by (cases "xs = []") (auto dest: in_set_butlastD)

lemma seg_tl: "distinct xs \<Longrightarrow> x \<in> set (tl xs) \<Longrightarrow> x \<in> set xs \<and> x \<noteq> hd xs"
  using hd_notin_tl [of xs] by (cases "xs = []") (auto dest: in_tlD)

lemma cyc_add_tail:
  assumes "cyc N P h ps" "x \<notin> set (h # ps)"
  defines "N' \<equiv> N(last (h # ps) \<mapsto> x, x \<mapsto> h)"
    and "P' \<equiv> P(x \<mapsto> last (h # ps), h \<mapsto> x)"
  shows "cyc N' P' h (ps @ [x])"
proof (cases "ps = []")
  case True
  then show ?thesis using assms(1,2) by (auto simp: cyc_iff N'_def P'_def)
next
  case False
  have d: "distinct (h # ps)" using assms(1) by (simp add: cyc_def)
  obtain a ps' where a: "ps = a # ps'" using False by (cases ps) auto
  have m: "last ps \<in> set ps" using False by simp
  have "links N' P' ps"
  proof (rule links_eqI)
    show "links N P ps" using assms(1) False by (rule cyc_links)
    show "N' x = N x" if "x \<in> set (butlast ps)" for x
      using seg_butlast [OF _ that] d assms(2) False by (auto simp: N'_def)
    show "P' x = P x" if "x \<in> set (tl ps)" for x
      using seg_tl [OF _ that] d assms(2) by (auto simp: P'_def)
  qed
  moreover have "N' h = Some (hd ps)" "P' (hd ps) = Some h"
    using assms(1,2) d m a by (auto simp: cyc_iff N'_def P'_def)
  moreover have "N' (last ps) = Some x" "P' x = Some (last ps)" "N' x = Some h" "P' h = Some x"
    using assms(2) m False by (auto simp: N'_def P'_def)
  ultimately show ?thesis
    using False d assms(2) by (simp add: cyc_iff links_app2)
qed

lemma cyc_add:
  assumes "cyc N P h ps" "x \<notin> set (h # ps)"
  defines "N' \<equiv> N(x \<mapsto> hd (ps @ [h]), h \<mapsto> x)"
    and "P' \<equiv> P(hd (ps @ [h]) \<mapsto> x, x \<mapsto> h)"
  shows "cyc N' P' h (x # ps)"
proof (cases "ps = []")
  case True
  then show ?thesis using assms(1,2) by (auto simp: cyc_iff N'_def P'_def)
next
  case False
  have d: "distinct (h # ps)" using assms(1) by (simp add: cyc_def)
  obtain a ps' where a: "ps = a # ps'" using False by (cases ps) auto
  have m: "last ps \<in> set ps" using False by simp
  have "links N' P' ps"
  proof (rule links_eqI)
    show "links N P ps" using assms(1) False by (rule cyc_links)
    show "N' x = N x" if "x \<in> set (butlast ps)" for x
      using seg_butlast [OF _ that] d assms(2) False by (auto simp: N'_def)
    show "P' x = P x" if "x \<in> set (tl ps)" for x
      using seg_tl [OF _ that] d assms(2) False by (auto simp: P'_def)
  qed
  moreover have "N' h = Some x" "P' x = Some h" "N' x = Some (hd ps)" "P' (hd ps) = Some x"
    using assms(2) d a by (auto simp: N'_def P'_def)
  moreover have "N' (last ps) = Some h" "P' h = Some (last ps)"
    using assms(1,2) d m False a by (auto simp: cyc_iff N'_def P'_def)
  ultimately show ?thesis
    using False d assms(2) links_app2 [of "[x]" ps N' P'] by (simp add: cyc_iff)
qed

lemma cyc_splice:
  assumes "cyc N P l ls" "cyc N P h hs" "set (l # ls) \<inter> set (h # hs) = {}" "ls \<noteq> []"
  defines "N' \<equiv> N(h \<mapsto> hd ls, last ls \<mapsto> hd (hs @ [h]), l \<mapsto> l)"
    and "P' \<equiv> P(hd ls \<mapsto> h, hd (hs @ [h]) \<mapsto> last ls, l \<mapsto> l)"
  shows "cyc N' P' h (ls @ hs) \<and> cyc N' P' l []"
proof -
  have dl: "distinct (l # ls)" and dh: "distinct (h # hs)" using assms by (auto simp: cyc_def)
  have m: "hd ls \<in> set ls" "last ls \<in> set ls" using assms(4) by auto
  have ll: "links N' P' ls"
  proof (rule links_eqI)
    show "links N P ls" using assms(1,4) by (rule cyc_links)
    show "N' x = N x" if "x \<in> set (butlast ls)" for x
      using seg_butlast [OF _ that] assms(3) dl by (auto simp: N'_def)
    show "P' x = P x" if "x \<in> set (tl ls)" for x
      using seg_tl [OF _ that] assms(3) dl by (cases hs) (auto simp: P'_def)
  qed
  have lh: "links N' P' hs" if ne: "hs \<noteq> []"
  proof (rule links_eqI)
    show "links N P hs" using assms(2) ne by (rule cyc_links)
    show "N' x = N x" if "x \<in> set (butlast hs)" for x
      using seg_butlast [OF _ that] assms(3) dh m by (auto simp: N'_def)
    show "P' x = P x" if "x \<in> set (tl hs)" for x
      using seg_tl [OF _ that] assms(3) dh m ne by (auto simp: P'_def)
  qed
  have e1: "N' h = Some (hd ls)" "P' (hd ls) = Some h"
    using m dl assms(3) by (cases hs; auto simp: N'_def P'_def)+
  have e2: "N' (last ls) = Some (hd (hs @ [h]))" "P' (hd (hs @ [h])) = Some (last ls)"
    using m dl assms(3) by (cases hs; auto simp: N'_def P'_def)+
  have e3: "N' (last hs) = Some h \<and> P' h = Some (last hs)" if ne: "hs \<noteq> []"
  proof -
    have "last hs \<in> set hs" using ne by simp
    moreover obtain a hs' where "hs = a # hs'" using ne by (cases hs) auto
    ultimately show ?thesis
      using assms(2,3) m dh dl ne by (auto simp: cyc_iff N'_def P'_def)
  qed
  have "cyc N' P' l []" by (simp add: cyc_iff N'_def P'_def)
  moreover have "cyc N' P' h (ls @ hs)"
    using ll lh e1 e2 e3 dl dh assms(3,4)
    by (cases "hs = []") (auto simp: cyc_iff links_app2)
  ultimately show ?thesis by simp
qed

lemma cyc_cut:
  assumes "cyc N P h (xs @ m # ys)" "t \<notin> set (h # xs @ m # ys)"
  defines "N' \<equiv> N(h \<mapsto> hd (ys @ [h]), m \<mapsto> t, t \<mapsto> hd (xs @ [m]))"
    and "P' \<equiv> P(hd (ys @ [h]) \<mapsto> h, t \<mapsto> m, hd (xs @ [m]) \<mapsto> t)"
  shows "cyc N' P' t (xs @ [m]) \<and> cyc N' P' h ys"
proof -
  have d: "distinct (h # xs @ m # ys)" using assms(1) by (simp add: cyc_def)
  have l: "links N P (xs @ m # ys)" using assms(1) by (simp add: cyc_iff)
  have l1: "links N P (xs @ [m])" and l2: "links N P (m # ys)"
    using l links_append [of N P xs m ys] by simp_all
  have l3: "ys \<noteq> [] \<Longrightarrow> links N P ys"
    using l2 by (cases ys) auto
  have hm: "hd (xs @ [m]) \<in> set (xs @ [m])" by (cases xs) auto
  have hy: "hd (ys @ [h]) \<in> set (ys @ [h])" by (cases ys) auto
  have s1: "links N' P' (xs @ [m])"
  proof (rule links_eqI [OF l1])
    show "N' x = N x" if "x \<in> set (butlast (xs @ [m]))" for x
      using that d assms(2) by (auto simp: N'_def)
    show "P' x = P x" if "x \<in> set (tl (xs @ [m]))" for x
      using seg_tl [OF _ that] d assms(2) hy by (cases ys) (auto simp: P'_def)
  qed
  have s2: "links N' P' ys" if ne: "ys \<noteq> []"
  proof (rule links_eqI [OF l3 [OF ne]])
    show "N' x = N x" if "x \<in> set (butlast ys)" for x
      using in_set_butlastD [OF that] d assms(2) by (auto simp: N'_def)
    show "P' x = P x" if "x \<in> set (tl ys)" for x
      using seg_tl [OF _ that] d assms(2) hm ne by (cases xs) (auto simp: P'_def)
  qed
  have e1: "N' t = Some (hd (xs @ [m]))" "P' (hd (xs @ [m])) = Some t" "N' m = Some t" "P' t = Some m"
    using d assms(2) hm by (cases xs; cases ys; auto simp: N'_def P'_def)+
  have e2: "N' h = Some (hd (ys @ [h]))" "P' (hd (ys @ [h])) = Some h"
    using d assms(2) hm hy by (cases xs; cases ys; auto simp: N'_def P'_def)+
  have e3: "N' (last ys) = Some h \<and> P' h = Some (last ys)" if ne: "ys \<noteq> []"
  proof -
    have zf: "z \<noteq> h \<and> z \<noteq> m \<and> z \<noteq> t" if "z \<in> set ys" for z
      using that d assms(2) by auto
    have ff: "f \<noteq> h \<and> f \<noteq> t" if "f \<in> set (xs @ [m])" for f
      using that d assms(2) by auto
    have o: "N (last ys) = Some h" "P h = Some (last ys)"
      using assms(1) ne by (simp_all add: cyc_iff)
    have "N' (last ys) = N (last ys)"
      using zf [of "last ys"] ne by (simp add: N'_def)
    moreover have "P' h = P h"
      using zf [of "hd ys"] ff [OF hm] ne assms(2) by (auto simp: P'_def)
    ultimately show ?thesis using o by simp
  qed
  have "cyc N' P' t (xs @ [m])"
    using s1 e1 d assms(2) by (simp add: cyc_iff)
  moreover have "cyc N' P' h ys"
    using s2 e2 e3 d by (cases "ys = []") (auto simp: cyc_iff)
  ultimately show ?thesis by simp
qed

lemma ring_empty [simp]: "ring s h ps \<Longrightarrow> list_empty s h = Inr (ps = [])"
  using ring_head_next [of s h ps] ring_distinct [of s h ps]
  by (cases ps) (auto simp: list_empty_def)

lemma ring_init:
  assumes "live s h"
  shows "\<exists>s'. INIT_LIST_HEAD h s = Inr s' \<and> ring s' h [] \<and> frame {h} s s'"
proof -
  let ?s' = "upd_prev h h (upd_next h h s)"
  have "INIT_LIST_HEAD h s = Inr ?s'" using assms by (simp add: INIT_LIST_HEAD_def)
  moreover have "ring ?s' h []" using assms by (simp add: ring_def cyc_iff)
  moreover have "frame {h} s ?s'"
    by (intro frame_upd_next frame_upd_prev frame_refl) simp_all
  ultimately show ?thesis by blast
qed

lemma ring_add_tail:
  assumes "ring s h ps" "live s x" "x \<notin> set (h # ps)"
  shows "\<exists>s'. list_add_tail x h s = Inr s' \<and> ring s' h (ps @ [x]) \<and>
               frame (insert x (set (h # ps))) s s'"
proof -
  let ?l = "last (h # ps)"
  have p: "prev_of s h = Some ?l" using assms(1) by (rule ring_head_prev)
  have lin: "?l \<in> set (h # ps)" by (cases ps) auto
  have ll: "live s ?l" and lh: "live s h" using ring_live [OF assms(1)] lin by auto
  let ?s' = "upd_prev h x (upd_prev x ?l (upd_next x h (upd_next ?l x s)))"
  have "list_add_tail x h s = Inr ?s'"
    using p ll lh assms(2) by (simp add: list_add_tail_def)
  moreover have "ring ?s' h (ps @ [x])"
    using cyc_add_tail [of "next_of s" "prev_of s" h ps x] assms ll lh by (simp add: ring_def)
  moreover have "frame (insert x (set (h # ps))) s ?s'"
    by (intro frame_upd_next frame_upd_prev frame_refl) (use lin in auto)
  ultimately show ?thesis by blast
qed

lemma ring_add:
  assumes "ring s h ps" "live s x" "x \<notin> set (h # ps)"
  shows "\<exists>s'. list_add x h s = Inr s' \<and> ring s' h (x # ps) \<and>
               frame (insert x (set (h # ps))) s s'"
proof -
  let ?f = "hd (ps @ [h])"
  have n: "next_of s h = Some ?f" using assms(1) by (rule ring_head_next)
  have fin: "?f \<in> set (h # ps)" by (cases ps) auto
  have lf: "live s ?f" and lh: "live s h" using ring_live [OF assms(1)] fin by auto
  let ?s' = "upd_next h x (upd_prev x h (upd_next x ?f (upd_prev ?f x s)))"
  have "list_add x h s = Inr ?s'"
    using n lf lh assms(2) by (simp add: list_add_def)
  moreover have "ring ?s' h (x # ps)"
    using cyc_add [of "next_of s" "prev_of s" h ps x] assms lf lh by (simp add: ring_def)
  moreover have "frame (insert x (set (h # ps))) s ?s'"
    by (intro frame_upd_next frame_upd_prev frame_refl) (use fin in auto)
  ultimately show ?thesis by blast
qed

lemma frame_live: "frame A s s' \<Longrightarrow> live s' x = live s x"
  by (simp add: frame_def)

lemma ring_move_tail:
  assumes "ring s a (x # xs)" "ring s d ds" "set (a # x # xs) \<inter> set (d # ds) = {}"
  shows "\<exists>s'. list_move_tail x d s = Inr s' \<and> ring s' a xs \<and> ring s' d (ds @ [x]) \<and>
               frame (set (a # x # xs) \<union> set (d # ds)) s s'"
proof -
  obtain s1 where 1: "list_del x s = Inr s1" "ring s1 a xs" "frame (set (a # xs)) s s1"
    using ring_del [of s a "[]" x xs] assms(1) by auto
  have r1: "ring s1 d ds" using assms(2) 1(3) by (rule ring_frame) (use assms(3) in auto)
  have lx: "live s1 x" using ring_live [OF assms(1), of x] frame_live [OF 1(3)] by simp
  have "x \<notin> set (d # ds)" using assms(3) by auto
  from ring_add_tail [OF r1 lx this]
  obtain s2 where 2: "list_add_tail x d s1 = Inr s2" "ring s2 d (ds @ [x])"
    "frame (insert x (set (d # ds))) s1 s2" by auto
  have "ring s2 a xs"
    using 1(2) 2(3) by (rule ring_frame) (use assms(3) ring_distinct [OF assms(1)] in auto)
  moreover have "frame (set (a # x # xs) \<union> set (d # ds)) s s2"
    using frame_trans [OF 1(3) 2(3)] by (rule frame_mono) auto
  ultimately show ?thesis using 1(1) 2(1,2) by (simp add: list_move_tail_def)
qed

lemma ring_splice_tail_init:
  assumes "ring s l ls" "ring s h hs" "set (l # ls) \<inter> set (h # hs) = {}"
  shows "\<exists>s'. list_splice_tail_init l h s = Inr s' \<and> ring s' h (hs @ ls) \<and> ring s' l [] \<and>
               frame (set (l # ls) \<union> set (h # hs)) s s'"
proof (cases "ls = []")
  case True
  have ll: "live s l" using ring_live [OF assms(1)] by simp
  obtain s' where i: "INIT_LIST_HEAD l s = Inr s'" "ring s' l []" "frame {l} s s'"
    using ring_init [OF ll] by auto
  have "ring s' h hs" using assms(2) i(3) by (rule ring_frame) (use assms(3) in auto)
  moreover have "frame (set (l # ls) \<union> set (h # hs)) s s'"
    using i(3) by (rule frame_mono) auto
  moreover have "list_splice_tail_init l h s = Inr s'"
    using i(1) ring_head_prev [OF assms(2)] ring_head_next [OF assms(1)] ring_head_prev [OF assms(1)]
      assms(1) True
    by (simp add: list_splice_tail_init_def)
  ultimately show ?thesis using i(2) True by auto
next
  case False
  let ?hl = "last (h # hs)" and ?lf = "hd ls" and ?ll = "last ls"
  have g: "prev_of s h = Some ?hl" "next_of s l = Some ?lf" "prev_of s l = Some ?ll"
    using ring_head_prev [OF assms(2)] ring_head_next [OF assms(1)] ring_head_prev [OF assms(1)] False
    by auto
  have m: "?hl \<in> set (h # hs)" "?lf \<in> set ls" "?ll \<in> set ls"
    using False by (cases hs; auto)+
  have lv: "live s ?hl" "live s ?lf" "live s ?ll" "live s l" "live s h"
    using ring_live [OF assms(1)] ring_live [OF assms(2)] m by auto
  let ?s' = "upd_prev l l (upd_next l l (upd_next ?hl ?lf (upd_prev ?lf ?hl
               (upd_next ?ll h (upd_prev h ?ll s)))))"
  have "list_splice_tail_init l h s = Inr ?s'"
    using g lv assms(1) False by (simp add: list_splice_tail_init_def INIT_LIST_HEAD_def)
  moreover have "ring ?s' h (hs @ ls) \<and> ring ?s' l []"
    using cyc_splice_tail [of "next_of s" "prev_of s" l ls h hs] assms lv False
    by (simp add: ring_def)
  moreover have "frame (set (l # ls) \<union> set (h # hs)) s ?s'"
    by (intro frame_upd_next frame_upd_prev frame_refl) (use m in auto)
  ultimately show ?thesis by blast
qed

lemma ring_splice:
  assumes "ring s l ls" "ring s h hs" "set (l # ls) \<inter> set (h # hs) = {}"
  shows "\<exists>s'. list_splice l h s = Inr s' \<and> ring s' h (ls @ hs) \<and>
               frame (set (l # ls) \<union> set (h # hs)) s s'"
proof (cases "ls = []")
  case True
  have "list_splice l h s = Inr s"
    using ring_head_next [OF assms(2)] ring_head_next [OF assms(1)] ring_head_prev [OF assms(1)]
      assms(1) True
    by (simp add: list_splice_def)
  then show ?thesis using assms(2) True by auto
next
  case False
  let ?hf = "hd (hs @ [h])" and ?lf = "hd ls" and ?ll = "last ls"
  have g: "next_of s h = Some ?hf" "next_of s l = Some ?lf" "prev_of s l = Some ?ll"
    using ring_head_next [OF assms(2)] ring_head_next [OF assms(1)] ring_head_prev [OF assms(1)] False
    by auto
  have m: "?hf \<in> set (h # hs)" "?lf \<in> set ls" "?ll \<in> set ls"
    using False by (cases hs; auto)+
  have lv: "live s ?hf" "live s ?lf" "live s ?ll" "live s l" "live s h"
    using ring_live [OF assms(1)] ring_live [OF assms(2)] m by auto
  let ?s' = "upd_prev l l (upd_next l l (upd_prev ?hf ?ll (upd_next ?ll ?hf
               (upd_prev ?lf h (upd_next h ?lf s)))))"
  have "list_splice l h s = Inr ?s'"
    using g lv assms(1) False by (simp add: list_splice_def INIT_LIST_HEAD_def)
  moreover have "ring ?s' h (ls @ hs)"
    using cyc_splice [of "next_of s" "prev_of s" l ls h hs] assms lv False
    by (simp add: ring_def)
  moreover have "frame (set (l # ls) \<union> set (h # hs)) s ?s'"
    by (intro frame_upd_next frame_upd_prev frame_refl) (use m in auto)
  ultimately show ?thesis by blast
qed

lemma ring_cut:
  assumes "ring s h (xs @ m # ys)" "live s t" "t \<notin> set (h # xs @ m # ys)"
  shows "\<exists>s'. list_cut_position t h m s = Inr s' \<and> ring s' t (xs @ [m]) \<and> ring s' h ys \<and>
               frame (insert t (set (h # xs @ m # ys))) s s'"
proof -
  let ?f = "hd (xs @ [m])" and ?n = "hd (ys @ [h])"
  have g: "next_of s h = Some ?f" "next_of s m = Some ?n"
    using ring_head_next [OF assms(1)] ring_next [OF assms(1)] by (cases xs; auto)+
  have mem: "?f \<in> set (h # xs @ m # ys)" "?n \<in> set (h # xs @ m # ys)"
    by (cases xs; cases ys; auto)+
  have lv: "live s ?f" "live s ?n" "live s h" "live s m"
    using ring_live [OF assms(1)] mem by auto
  have hm: "h \<noteq> m" using ring_distinct [OF assms(1)] by auto
  let ?s' = "upd_prev ?f t (upd_next t ?f (upd_next m t (upd_prev t m
               (upd_prev ?n h (upd_next h ?n s)))))"
  have "list_cut_position t h m s = Inr ?s'"
    using g lv assms hm by (simp add: list_cut_position_def)
  moreover have "ring ?s' t (xs @ [m]) \<and> ring ?s' h ys"
    using cyc_cut [of "next_of s" "prev_of s" h xs m ys t] assms lv
    by (simp add: ring_def)
  moreover have "frame (insert t (set (h # xs @ m # ys))) s ?s'"
    by (intro frame_upd_next frame_upd_prev frame_refl) (use mem in auto)
  ultimately show ?thesis by blast
qed

lemma ring_next_nth:
  assumes "ring s h ps" "i < length ps"
  shows "next_of s (ps ! i) = Some ((ps @ [h]) ! Suc i)"
proof -
  have "next_of s ((h # ps @ [h]) ! Suc i) = Some ((h # ps @ [h]) ! Suc (Suc i))"
    using links_nth [OF ring_links [OF assms(1)], of "Suc i"] assms(2) by simp
  then show ?thesis using assms(2) by (simp add: nth_append)
qed

lemma ring_nth_neq_head: "ring s h ps \<Longrightarrow> i < length ps \<Longrightarrow> ps ! i \<noteq> h \<and> ps ! i \<noteq> NULL"
  using ring_distinct [of s h ps] ring_live [of s h ps "ps ! i"] live_not_NULL [of s "ps ! i"]
  by auto

lemma q_mid_loop_ring:
  assumes "ring s h ps" "2 * k + 1 \<le> length ps"
  shows "q_mid_loop s h (ps ! k) ((ps @ [h]) ! (2 * k + 1)) = Some (Inr (ps ! ((length ps - 1) div 2)))"
  using assms(2)
proof (induction "length ps - 2 * k" arbitrary: k rule: less_induct)
  case less
  let ?n = "length ps"
  consider (a) "2 * k + 1 = ?n" | (b) "2 * k + 2 = ?n" | (c) "2 * k + 3 \<le> ?n"
    using less.prems by linarith
  then show ?case
  proof cases
    case a
    then have "(ps @ [h]) ! (2 * k + 1) = h" by (metis nth_append_length)
    moreover have "(?n - 1) div 2 = k" using a by simp
    ultimately show ?thesis by (subst q_mid_loop.simps) simp
  next
    case b
    have f: "(ps @ [h]) ! (2 * k + 1) = ps ! (2 * k + 1)" using b by (simp add: nth_append)
    have "next_of s (ps ! (2 * k + 1)) = Some ((ps @ [h]) ! (2 * k + 2))"
      using ring_next_nth [OF assms(1), of "2 * k + 1"] b by simp
    moreover have "(ps @ [h]) ! (2 * k + 2) = h" using b by (metis nth_append_length)
    moreover have "(?n - 1) div 2 = k" using b by simp
    ultimately show ?thesis
      using ring_nth_neq_head [OF assms(1), of "2 * k + 1"] b f
      by (subst q_mid_loop.simps) simp
  next
    case c
    have f: "(ps @ [h]) ! (2 * k + 1) = ps ! (2 * k + 1)" using c by (simp add: nth_append)
    have f2: "(ps @ [h]) ! (2 * k + 2) = ps ! (2 * k + 2)" using c by (simp add: nth_append)
    have n1: "next_of s (ps ! (2 * k + 1)) = Some (ps ! (2 * k + 2))"
      using ring_next_nth [OF assms(1), of "2 * k + 1"] c f2 by simp
    have n2: "next_of s (ps ! (2 * k + 2)) = Some ((ps @ [h]) ! (2 * (k + 1) + 1))"
      using ring_next_nth [OF assms(1), of "2 * k + 2"] c by simp
    have n3: "next_of s (ps ! k) = Some (ps ! (k + 1))"
      using ring_next_nth [OF assms(1), of k] c by (simp add: nth_append)
    have ih: "q_mid_loop s h (ps ! (k + 1)) ((ps @ [h]) ! (2 * (k + 1) + 1)) =
        Some (Inr (ps ! ((?n - 1) div 2)))"
      using less.hyps [of "k + 1"] c by simp
    show ?thesis
      using ring_nth_neq_head [OF assms(1), of "2 * k + 1"]
        ring_nth_neq_head [OF assms(1), of "2 * k + 2"] c f n1 n2 n3 ih
      by (subst q_mid_loop.simps) simp
  qed
qed

lemma q_mid_ring:
  assumes "ring s h ps" "ps \<noteq> []"
  shows "q_mid h s = Some (Inr (ps ! ((length ps - 1) div 2)))"
proof -
  have h: "h \<noteq> NULL" using ring_live [OF assms(1), of h] live_not_NULL by auto
  have n: "next_of s h = Some (ps ! 0)"
    using ring_head_next [OF assms(1)] assms(2) by (cases ps) auto
  have n1: "next_of s (ps ! 0) = Some ((ps @ [h]) ! (2 * 0 + 1))"
    using ring_next_nth [OF assms(1), of 0] assms(2) by simp
  have "q_mid_loop s h (ps ! 0) ((ps @ [h]) ! (2 * 0 + 1)) = Some (Inr (ps ! ((length ps - 1) div 2)))"
    by (rule q_mid_loop_ring [OF assms(1)]) (use assms(2) in \<open>cases ps; simp\<close>)
  then show ?thesis
    using h n n1 assms by (simp add: q_mid_def)
qed

lemma q_mid_empty: "head = NULL \<or> ring s head [] \<Longrightarrow> q_mid head s = Some (Inr head)"
  by (auto simp: q_mid_def)

section \<open>Locating the middle element\<close>

lemmas fixture_defs = queue_state_def ring_def cyc_def next_of_def prev_of_def node_at_def
  value_at_def buf_at_def cstr_def elem_ok_def

lemma ring_abcdef: "ring abcdef 1 [2, 3, 4, 5, 6, 7]"
  by (simp add: abcdef_def fixture_defs)

text \<open>
  Claim C1: \<^verbatim>\<open>q_mid\<close> on a non-empty ring of \<open>n\<close> elements returns the element at index
  \<open>n div 2\<close>, the element holding \<open>d\<close> on the ring built from \<open>a, b, c, d, e, f\<close>. The
  code does not: \<open>q_mid_ring\<close> shows that it returns the element at index
  \<open>(n - 1) div 2\<close>, and on the ring of six it returns the element at index 2, which
  holds \<open>c\<close>, while the element at index 3 holds \<open>d\<close>.
\<close>

theorem q_mid_six_elements:
  "q_mid 1 abcdef = Some (Inr ([2, 3, 4, 5, 6, 7] ! 2)) \<and>
   cstr abcdef ([2, 3, 4, 5, 6, 7] ! 2) = ''c'' \<and> cstr abcdef ([2, 3, 4, 5, 6, 7] ! 3) = ''d''"
  using q_mid_ring [OF ring_abcdef] by (simp add: abcdef_def fixture_defs)

section \<open>Removal at either end\<close>

lemma bufs_update_nodes [simp]:
  "next_of (s\<lparr>bufs := b\<rparr>) = next_of s" "prev_of (s\<lparr>bufs := b\<rparr>) = prev_of s"
  "live (s\<lparr>bufs := b\<rparr>) = live s" "value_at (s\<lparr>bufs := b\<rparr>) = value_at s"
  by (auto simp: next_of_def prev_of_def live_def node_at_def value_at_def fun_eq_iff)

lemma ring_bufs_update [simp]: "ring (s\<lparr>bufs := b\<rparr>) h ps = ring s h ps"
  by (simp add: ring_def)

lemma buf_at_update [simp]:
  "p \<noteq> NULL \<Longrightarrow> buf_at (s\<lparr>bufs := (bufs s)(p \<mapsto> x)\<rparr>) q = (if q = p then Some x else buf_at s q)"
  by (simp add: buf_at_def)

lemma buf_at_not_NULL: "buf_at s p = Some b \<Longrightarrow> p \<noteq> NULL"
  by (auto simp: buf_at_def split: if_splits)

lemma get_value_eq [simp]: "value_at s p = Some v \<Longrightarrow> get_value s p = Inr v"
  by (simp add: get_value_def)

lemma length_strncpy_bytes: "n \<le> length d \<Longrightarrow> length (strncpy_bytes d b n) = length d"
proof -
  have "length (takeWhile (\<lambda>c. c \<noteq> NUL) (take n b)) \<le> n"
    using length_takeWhile_le [of "\<lambda>c. c \<noteq> NUL" "take n b"] by simp
  then show "n \<le> length d \<Longrightarrow> ?thesis"
    by (simp add: strncpy_bytes_def Let_def)
qed

lemma takeWhile_NUL_less: "NUL \<in> set b \<Longrightarrow> length (takeWhile (\<lambda>c. c \<noteq> NUL) b) < length b"
  by (induction b) auto

lemma strncpy_eq:
  assumes "buf_at s dst = Some d" "buf_at s src = Some b" "NUL \<in> set b" "dst \<noteq> src"
    "n \<le> length d"
  shows "strncpy dst src n s = Inr (s\<lparr>bufs := (bufs s)(dst \<mapsto> strncpy_bytes d b n)\<rparr>)"
proof -
  have "\<not> (length (takeWhile (\<lambda>c. c \<noteq> NUL) (take n b)) = length b \<and> length b < n)"
    using takeWhile_NUL_less [OF assms(3)] by auto
  then show ?thesis
    using assms by (simp add: strncpy_def strncpy_bytes_def Let_def)
qed

lemma strncpy_zero:
  assumes "buf_at s dst = Some d" "buf_at s src = Some b" "b \<noteq> []"
  shows "strncpy dst src 0 s = Inr (s\<lparr>bufs := (bufs s)(dst \<mapsto> d)\<rparr>)"
  using assms by (simp add: strncpy_def)

lemma store_byte_eq:
  "buf_at s p = Some b \<Longrightarrow> 0 \<le> i \<Longrightarrow> i < int (length b) \<Longrightarrow>
   store_byte p i c s = Inr (s\<lparr>bufs := (bufs s)(p \<mapsto> b[nat i := c])\<rparr>)"
  by (simp add: store_byte_def)

lemma store_byte_oob:
  "buf_at s p = Some b \<Longrightarrow> int (length b) \<le> i \<Longrightarrow> store_byte p i c s = Inl Out_of_bounds"
  by (simp add: store_byte_def)

lemma ring_head_not_NULL: "ring s h ps \<Longrightarrow> h \<noteq> NULL"
  using ring_live [of s h ps h] live_not_NULL by auto

lemma copy_to_sp:
  assumes "buf_at s sp = Some d" "value_at s x = Some v" "buf_at s v = Some b" "NUL \<in> set b"
    "v \<noteq> sp" "bufsize \<noteq> 0" "unat bufsize \<le> length d"
  shows "bind_res (get_value s x) (\<lambda>v.
           bind_res (strncpy sp v (unat bufsize) s) (\<lambda>s.
           store_byte sp (int (unat (bufsize - 1))) NUL s)) = Inr (copy_out sp d b bufsize s)"
proof -
  have sp: "sp \<noteq> NULL" using assms(1) by (rule buf_at_not_NULL)
  have u: "unat (bufsize - 1) = unat bufsize - 1"
    using assms(6) by (simp add: unat_minus_one)
  have pos: "0 < unat bufsize" using assms(6) by (simp add: unat_gt_0)
  let ?s1 = "s\<lparr>bufs := (bufs s)(sp \<mapsto> strncpy_bytes d b (unat bufsize))\<rparr>"
  have 1: "strncpy sp v (unat bufsize) s = Inr ?s1"
    using strncpy_eq [OF assms(1,3,4) _ assms(7)] assms(5) by simp
  have b1: "buf_at ?s1 sp = Some (strncpy_bytes d b (unat bufsize))" using sp by simp
  define k where "k = unat bufsize - 1"
  define X where "X = strncpy_bytes d b (unat bufsize)"
  have lt: "k < length X"
    using pos assms(7) length_strncpy_bytes [OF assms(7), of b] by (simp add: k_def X_def)
  have b1': "buf_at ?s1 sp = Some X" using b1 by (simp add: X_def)
  have "store_byte sp (int k) NUL ?s1 = Inr (?s1\<lparr>bufs := (bufs ?s1)(sp \<mapsto> X[nat (int k) := NUL])\<rparr>)"
    by (rule store_byte_eq [OF b1']) (use lt in simp_all)
  moreover have "int (unat (bufsize - 1)) = int k" by (simp only: u k_def)
  ultimately have "store_byte sp (int (unat (bufsize - 1))) NUL ?s1 = Inr (copy_out sp d b bufsize s)"
    by (simp add: copy_out_def k_def X_def)
  then show ?thesis using 1 assms(2) by simp
qed

lemma copy_to_sp_zero:
  assumes "buf_at s sp = Some d" "value_at s x = Some v" "buf_at s v = Some b" "NUL \<in> set b"
    "length d < 2 ^ 64"
  shows "bind_res (get_value s x) (\<lambda>v.
           bind_res (strncpy sp v (unat (0 :: 64 word)) s) (\<lambda>s.
           store_byte sp (int (unat ((0 :: 64 word) - 1))) NUL s)) = Inl Out_of_bounds"
proof -
  have sp: "sp \<noteq> NULL" using assms(1) by (rule buf_at_not_NULL)
  have ne: "b \<noteq> []" using assms(4) by auto
  let ?s1 = "s\<lparr>bufs := (bufs s)(sp \<mapsto> d)\<rparr>"
  have 1: "strncpy sp v 0 s = Inr ?s1" using strncpy_zero [OF assms(1,3) ne] .
  have b1: "buf_at ?s1 sp = Some d" using sp by simp
  have "unat ((0 :: 64 word) - 1) = 2 ^ 64 - 1" by (simp add: unsigned_minus_1_eq_mask mask_eq_exp_minus_1)
  then have "length d \<le> unat ((0 :: 64 word) - 1)" using assms(5) by linarith
  then have "int (length d) \<le> int (unat ((0 :: 64 word) - 1))" by (simp only: of_nat_le_iff)
  from store_byte_oob [OF b1 this] show ?thesis using 1 assms(2) by simp
qed

lemma q_remove_head_no_sp:
  assumes "ring s h (x # xs)"
  shows "\<exists>s'. q_remove_head h NULL bufsize s = Inr (x, s') \<and> ring s' h xs \<and>
               frame (set (h # xs)) s s'"
proof -
  obtain s' where "list_del x s = Inr s'" "ring s' h xs" "frame (set (h # xs)) s s'"
    using ring_del [of s h "[]" x xs] assms by auto
  then show ?thesis
    using ring_head_next [OF assms] ring_head_not_NULL [OF assms] assms
    by (simp add: q_remove_head_def)
qed

lemma q_remove_tail_no_sp:
  assumes "ring s h (xs @ [x])"
  shows "\<exists>s'. q_remove_tail h NULL bufsize s = Inr (x, s') \<and> ring s' h xs \<and>
               frame (set (h # xs)) s s'"
proof -
  obtain s' where "list_del x s = Inr s'" "ring s' h xs" "frame (set (h # xs)) s s'"
    using ring_del [of s h xs x "[]"] assms by auto
  then show ?thesis
    using ring_head_prev [OF assms] ring_head_not_NULL [OF assms] assms
    by (simp add: q_remove_tail_def)
qed

lemma q_remove_head_copy:
  assumes "ring s h (x # xs)" "buf_at s sp = Some d" "value_at s x = Some v"
    "buf_at s v = Some b" "NUL \<in> set b" "v \<noteq> sp" "bufsize \<noteq> 0" "unat bufsize \<le> length d"
  shows "\<exists>s'. q_remove_head h sp bufsize s = Inr (x, s') \<and> ring s' h xs \<and>
               frame (set (h # xs)) (copy_out sp d b bufsize s) s'"
proof -
  let ?s1 = "copy_out sp d b bufsize s"
  have r1: "ring ?s1 h (x # xs)" using assms(1) by (simp add: copy_out_def)
  obtain s' where "list_del x ?s1 = Inr s'" "ring s' h xs" "frame (set (h # xs)) ?s1 s'"
    using ring_del [of ?s1 h "[]" x xs] r1 by auto
  then show ?thesis
    using ring_head_next [OF assms(1)] ring_head_next [OF r1] ring_head_not_NULL [OF assms(1)]
      assms(1) buf_at_not_NULL [OF assms(2)] copy_to_sp [OF assms(2-8)]
    by (simp add: q_remove_head_def)
qed

lemma q_remove_tail_copy:
  assumes "ring s h (xs @ [x])" "buf_at s sp = Some d" "value_at s x = Some v"
    "buf_at s v = Some b" "NUL \<in> set b" "v \<noteq> sp" "bufsize \<noteq> 0" "unat bufsize \<le> length d"
  shows "\<exists>s'. q_remove_tail h sp bufsize s = Inr (x, s') \<and> ring s' h xs \<and>
               frame (set (h # xs)) (copy_out sp d b bufsize s) s'"
proof -
  let ?s1 = "copy_out sp d b bufsize s"
  have r1: "ring ?s1 h (xs @ [x])" using assms(1) by (simp add: copy_out_def)
  obtain s' where "list_del x ?s1 = Inr s'" "ring s' h xs" "frame (set (h # xs)) ?s1 s'"
    using ring_del [of ?s1 h xs x "[]"] r1 by auto
  then show ?thesis
    using ring_head_prev [OF assms(1)] ring_head_prev [OF r1] ring_head_not_NULL [OF assms(1)]
      assms(1) buf_at_not_NULL [OF assms(2)] copy_to_sp [OF assms(2-8)]
    by (simp add: q_remove_tail_def)
qed

lemma q_remove_head_zero:
  assumes "ring s h (x # xs)" "buf_at s sp = Some d" "value_at s x = Some v"
    "buf_at s v = Some b" "NUL \<in> set b" "length d < 2 ^ 64"
  shows "q_remove_head h sp 0 s = Inl Out_of_bounds"
  using ring_head_next [OF assms(1)] ring_head_not_NULL [OF assms(1)]
    assms(1) buf_at_not_NULL [OF assms(2)] copy_to_sp_zero [OF assms(2-6)]
  by (simp add: q_remove_head_def)

lemma q_remove_tail_zero:
  assumes "ring s h (xs @ [x])" "buf_at s sp = Some d" "value_at s x = Some v"
    "buf_at s v = Some b" "NUL \<in> set b" "length d < 2 ^ 64"
  shows "q_remove_tail h sp 0 s = Inl Out_of_bounds"
  using ring_head_prev [OF assms(1)] ring_head_not_NULL [OF assms(1)]
    assms(1) buf_at_not_NULL [OF assms(2)] copy_to_sp_zero [OF assms(2-6)]
  by (simp add: q_remove_tail_def)

text \<open>
  Claim C7: on an absent (null) or empty ring, \<^verbatim>\<open>q_remove_head\<close> and \<^verbatim>\<open>q_remove_tail\<close> return
  null without faulting, and leave the output buffer as it is: they return the state they
  were given, whatever \<open>sp\<close> and \<open>bufsize\<close> are.
\<close>

theorem remove_absent_or_empty:
  assumes "head = NULL \<or> ring s head []"
  shows "q_remove_head head sp bufsize s = Inr (NULL, s) \<and>
         q_remove_tail head sp bufsize s = Inr (NULL, s)"
  using assms by (auto simp: q_remove_head_def q_remove_tail_def)

theorem remove_absent_or_empty_witness:
  "q_remove_head 1 9 2 empty_queue = Inr (NULL, empty_queue) \<and>
   q_remove_tail 1 9 2 empty_queue = Inr (NULL, empty_queue) \<and>
   q_remove_head NULL 9 2 empty_queue = Inr (NULL, empty_queue) \<and>
   q_remove_tail NULL 9 2 empty_queue = Inr (NULL, empty_queue) \<and>
   buf_at empty_queue 9 = Some ''xy''"
proof -
  have "ring empty_queue 1 []" by (simp add: empty_queue_def fixture_defs)
  then show ?thesis
    using remove_absent_or_empty [of 1 empty_queue 9 2]
      remove_absent_or_empty [of NULL empty_queue 9 2]
    by (simp add: empty_queue_def buf_at_def)
qed

text \<open>
  Claim C9: on a non-empty ring with a non-null \<open>sp\<close>, the terminator store
  \<^verbatim>\<open>sp[bufsize - 1] = '\0'\<close> of \<^verbatim>\<open>q_remove_head\<close> and \<^verbatim>\<open>q_remove_tail\<close> is inside the output
  buffer only when \<open>bufsize \<ge> 1\<close>. The caller passes a live buffer of capacity at least
  \<open>bufsize\<close>, distinct from the string of the element removed. With \<open>bufsize = 0\<close> the
  index wraps to \<open>2 ^ 64 - 1\<close>, it is not an index of the buffer, and both functions
  fault with an out-of-bounds store; with any other \<open>bufsize\<close> the index \<open>bufsize - 1\<close> is
  inside the buffer and both return the element removed.
\<close>

theorem remove_terminator_store:
  assumes "ring s head ps" "ps \<noteq> []" "sp \<noteq> NULL" "buf_at s sp = Some d"
    "length d < 2 ^ 64" "unat bufsize \<le> length d"
    "elem_ok s (hd ps)" "value_at s (hd ps) \<noteq> Some sp"
    "elem_ok s (last ps)" "value_at s (last ps) \<noteq> Some sp"
  shows "(int (unat (bufsize - 1)) < int (length d) \<longleftrightarrow> bufsize \<noteq> 0) \<and>
         (bufsize = 0 \<longrightarrow> q_remove_head head sp bufsize s = Inl Out_of_bounds \<and>
                        q_remove_tail head sp bufsize s = Inl Out_of_bounds) \<and>
         (bufsize \<noteq> 0 \<longrightarrow> (\<exists>s'. q_remove_head head sp bufsize s = Inr (hd ps, s')) \<and>
                        (\<exists>s'. q_remove_tail head sp bufsize s = Inr (last ps, s')))"
proof -
  obtain x xs where hd: "ps = x # xs" using assms(2) by (cases ps) auto
  obtain ys y where lst: "ps = ys @ [y]" using assms(2) by (metis append_butlast_last_id)
  obtain v b where v: "value_at s x = Some v" "buf_at s v = Some b" "NUL \<in> set b" "v \<noteq> sp"
    using assms(7,8) hd by (auto simp: elem_ok_def)
  obtain w c where w: "value_at s y = Some w" "buf_at s w = Some c" "NUL \<in> set c" "w \<noteq> sp"
    using assms(9,10) lst by (auto simp: elem_ok_def)
  have idx: "int (unat (bufsize - 1)) < int (length d) \<longleftrightarrow> bufsize \<noteq> 0"
  proof (cases "bufsize = 0")
    case True
    have "unat ((0 :: 64 word) - 1) = 2 ^ 64 - 1"
      by (simp add: unsigned_minus_1_eq_mask mask_eq_exp_minus_1)
    then have "\<not> unat ((0 :: 64 word) - 1) < length d" using assms(5) by linarith
    then show ?thesis using True by (simp only: of_nat_less_iff) simp
  next
    case False
    then have "unat (bufsize - 1) = unat bufsize - 1" "0 < unat bufsize"
      by (simp_all add: unat_minus_one unat_gt_0)
    then have "unat (bufsize - 1) < length d" using assms(6) by linarith
    then show ?thesis using False by (simp only: of_nat_less_iff) simp
  qed
  have r1: "ring s head (x # xs)" using assms(1) hd by simp
  have r2: "ring s head (ys @ [y])" using assms(1) lst by simp
  have z: "q_remove_head head sp 0 s = Inl Out_of_bounds"
    "q_remove_tail head sp 0 s = Inl Out_of_bounds"
    using q_remove_head_zero [OF r1 assms(4) v(1-3) assms(5)]
      q_remove_tail_zero [OF r2 assms(4) w(1-3) assms(5)] by auto
  have nz: "(\<exists>s'. q_remove_head head sp bufsize s = Inr (hd ps, s')) \<and>
            (\<exists>s'. q_remove_tail head sp bufsize s = Inr (last ps, s'))" if "bufsize \<noteq> 0"
  proof -
    have "\<exists>s'. q_remove_head head sp bufsize s = Inr (x, s')"
      using q_remove_head_copy [OF r1 assms(4) v that assms(6)] by auto
    moreover have "\<exists>s'. q_remove_tail head sp bufsize s = Inr (y, s')"
      using q_remove_tail_copy [OF r2 assms(4) w that assms(6)] by auto
    moreover have "hd ps = x" using hd by simp
    moreover have "last ps = y" using lst by simp
    ultimately show ?thesis by simp
  qed
  show ?thesis using idx z nz by auto
qed

theorem remove_terminator_store_witness:
  "q_remove_head 1 9 0 abcdef_out = Inl Out_of_bounds \<and>
   q_remove_tail 1 9 0 abcdef_out = Inl Out_of_bounds \<and>
   (\<exists>s'. q_remove_head 1 9 3 abcdef_out = Inr (2, s')) \<and>
   (\<exists>s'. q_remove_tail 1 9 3 abcdef_out = Inr (7, s'))"
proof -
  have r: "ring abcdef_out 1 [2, 3, 4, 5, 6, 7]"
    using ring_abcdef by (simp add: abcdef_out_def)
  have b: "buf_at abcdef_out 9 = Some ''wxyz''"
    by (simp add: abcdef_out_def buf_at_def)
  have e: "elem_ok abcdef_out 2" "value_at abcdef_out 2 \<noteq> Some 9"
    "elem_ok abcdef_out 7" "value_at abcdef_out 7 \<noteq> Some 9"
    by (simp_all add: abcdef_out_def abcdef_def fixture_defs)
  show ?thesis
    using remove_terminator_store [of abcdef_out 1 "[2, 3, 4, 5, 6, 7]" 9 "''wxyz''" 0]
      remove_terminator_store [of abcdef_out 1 "[2, 3, 4, 5, 6, 7]" 9 "''wxyz''" 3] r b e
    by simp
qed

section \<open>Reversal and pairwise swap\<close>

lemma cyc_rev:
  assumes "cyc N P h ps" "\<forall>x\<in>set (h # ps). N' x = P x \<and> P' x = N x"
  shows "cyc N' P' h (rev ps)"
proof -
  have "links P N (rev (h # ps @ [h]))"
    using assms(1) by (intro links_rev) (simp add: cyc_def)
  then have "links P N (h # rev ps @ [h])" by simp
  then have "links N' P' (h # rev ps @ [h])"
    by (rule links_eqI) (use assms(2) in \<open>auto dest: in_set_butlastD in_tlD\<close>)
  then show ?thesis using assms(1) by (simp add: cyc_def)
qed

lemma links_tl: "links N P (x # xs) \<Longrightarrow> links N P xs"
  by (cases xs) auto

lemma links_live:
  "links (next_of s) (prev_of s) (xs @ [h]) \<Longrightarrow> x \<in> set xs \<Longrightarrow> live s x"
proof (induction xs)
  case (Cons a xs)
  then show ?case by (cases xs) (auto dest: links_tl)
qed simp

lemma q_reverse_loop_ring:
  assumes "links (next_of s) (prev_of s) (todo @ [h])" "distinct (todo @ [h])" "live s h"
    "todo \<noteq> [] \<longrightarrow> next_of s (hd todo) = Some safe"
  shows "\<exists>s'. q_reverse_loop s h (hd (todo @ [h])) safe = Some (Inr s') \<and>
    (\<forall>x\<in>set todo. next_of s' x = prev_of s x \<and> prev_of s' x = next_of s x) \<and>
    frame (set todo) s s'"
  using assms
proof (induction todo arbitrary: s safe)
  case Nil
  then show ?case by (subst q_reverse_loop.simps) simp
next
  case (Cons x rest)
  let ?n = "hd (rest @ [h])"
  have xh: "x \<noteq> h" and xr: "x \<notin> set rest" using Cons.prems(2) by auto
  have nx: "next_of s x = Some ?n" and sf: "safe = ?n"
    using Cons.prems(1,4) by (cases rest; auto)+
  have lx: "live s x" using nx by simp
  obtain p where px: "prev_of s x = Some p" using lx by (auto simp: live_prev_of)
  let ?s1 = "upd_next x p (upd_prev x ?n s)"
  have f1: "frame {x} s ?s1"
    by (intro frame_upd_next frame_upd_prev frame_refl) simp_all
  have nt: "x \<notin> set (tl (rest @ [h]))" "x \<notin> set (butlast (rest @ [h]))"
    using xh xr by (auto dest: in_tlD)
  have l1: "links (next_of ?s1) (prev_of ?s1) (rest @ [h])"
    using links_tl [of "next_of s" "prev_of s" x "rest @ [h]"] Cons.prems(1) lx nt
    by simp
  have ln: "live s ?n"
    using links_live [OF l1, of ?n] Cons.prems(3) by (cases rest) auto
  have nneq: "?n \<noteq> x" using xh xr by (cases rest) auto
  obtain sf' where sf0: "next_of s ?n = Some sf'" using ln by (auto simp: live_next_of)
  have sf': "next_of ?s1 ?n = Some sf'" using sf0 lx nneq by simp
  have "\<exists>s'. q_reverse_loop ?s1 h (hd (rest @ [h])) sf' = Some (Inr s') \<and>
      (\<forall>y\<in>set rest. next_of s' y = prev_of ?s1 y \<and> prev_of s' y = next_of ?s1 y) \<and>
      frame (set rest) ?s1 s'"
  proof (rule Cons.IH [OF l1])
    show "distinct (rest @ [h])" using Cons.prems(2) by simp
    show "live ?s1 h" using Cons.prems(3) by simp
    show "rest \<noteq> [] \<longrightarrow> next_of ?s1 (hd rest) = Some sf'" using sf' by auto
  qed
  then obtain s' where s': "q_reverse_loop ?s1 h ?n sf' = Some (Inr s')"
    "\<forall>y\<in>set rest. next_of s' y = prev_of ?s1 y \<and> prev_of s' y = next_of ?s1 y"
    "frame (set rest) ?s1 s'" by blast
  have run: "q_reverse_loop s h (hd ((x # rest) @ [h])) safe = Some (Inr s')"
    using xh px nx lx sf sf' s'(1) by (subst q_reverse_loop.simps) simp
  have ex: "next_of s' x = prev_of s x \<and> prev_of s' x = next_of s x"
    using s'(3) xr lx px nx by (simp add: frame_def)
  have er: "\<forall>y\<in>set rest. next_of s' y = prev_of s y \<and> prev_of s' y = next_of s y"
    using s'(2) xr lx by auto
  have "frame (set (x # rest)) s s'"
    using frame_trans [OF f1 s'(3)] by simp
  then show ?case using run ex er by auto
qed

lemma q_reverse_ring:
  assumes "ring s h ps"
  shows "\<exists>s'. q_reverse h s = Some (Inr s') \<and> ring s' h (rev ps) \<and> frame (set (h # ps)) s s'"
proof (cases "ps = []")
  case True
  then show ?thesis
    using assms ring_head_not_NULL [OF assms] by (auto simp: q_reverse_def)
next
  case False
  have hn: "h \<noteq> NULL" using assms by (rule ring_head_not_NULL)
  have lh: "live s h" using ring_live [OF assms] by simp
  have l: "links (next_of s) (prev_of s) (ps @ [h])"
    using ring_links [OF assms] by (rule links_tl)
  have d: "distinct (ps @ [h])" using ring_distinct [OF assms] by auto
  have n0: "next_of s h = Some (hd ps)" using ring_head_next [OF assms] False by simp
  have lv: "live s (hd ps)" using links_live [OF l, of "hd ps"] False by simp
  obtain sf where sf: "next_of s (hd ps) = Some sf" using lv by (auto simp: live_next_of)
  obtain s1 where s1: "q_reverse_loop s h (hd (ps @ [h])) sf = Some (Inr s1)"
    "\<forall>x\<in>set ps. next_of s1 x = prev_of s x \<and> prev_of s1 x = next_of s x"
    "frame (set ps) s s1"
    using q_reverse_loop_ring [OF l d lh, of sf] sf by blast
  obtain hp where hp: "prev_of s h = Some hp" using lh by (auto simp: live_prev_of)
  have h1: "next_of s1 h = Some (hd ps)" "prev_of s1 h = Some hp" "live s1 h"
    using s1(3) d n0 hp lh by (auto simp: frame_def)
  let ?s2 = "upd_prev h (hd ps) (upd_next h hp s1)"
  have run: "q_reverse h s = Some (Inr ?s2)"
    using hn assms False n0 sf s1(1) h1 by (simp add: q_reverse_def)
  have sw: "\<forall>x\<in>set (h # ps). next_of ?s2 x = prev_of s x \<and> prev_of ?s2 x = next_of s x"
    using s1(2) h1 n0 hp d by auto
  have "ring ?s2 h (rev ps)"
    unfolding ring_def by (rule cyc_rev [OF assms [unfolded ring_def] sw])
  moreover have "frame (set (h # ps)) s ?s2"
    by (intro frame_upd_next frame_upd_prev frame_mono [OF s1(3)]) auto
  ultimately show ?thesis using run by blast
qed

text \<open>
  Claim C5: \<^verbatim>\<open>q_reverse\<close> is an involution. On every ring it returns, leaving the ring in
  reverse order; applied again it returns with the elements in their original order, and
  neither call touches an element's payload.
\<close>

theorem reverse_twice:
  assumes "ring s head ps"
  shows "\<exists>s1 s2. q_reverse head s = Some (Inr s1) \<and> ring s1 head (rev ps) \<and>
                  q_reverse head s1 = Some (Inr s2) \<and> ring s2 head ps \<and>
                  elem_value s2 = elem_value s \<and> bufs s2 = bufs s"
proof -
  obtain s1 where 1: "q_reverse head s = Some (Inr s1)" "ring s1 head (rev ps)"
    "frame (set (head # ps)) s s1"
    using q_reverse_ring [OF assms] by blast
  obtain s2 where 2: "q_reverse head s1 = Some (Inr s2)" "ring s2 head (rev (rev ps))"
    "frame (set (head # rev ps)) s1 s2"
    using q_reverse_ring [OF 1(2)] by blast
  show ?thesis using 1 2 by (auto simp: frame_def)
qed

theorem reverse_twice_witness:
  "\<exists>s1 s2. q_reverse 1 abcdef = Some (Inr s1) \<and> ring s1 1 [7, 6, 5, 4, 3, 2] \<and>
           q_reverse 1 s1 = Some (Inr s2) \<and> ring s2 1 [2, 3, 4, 5, 6, 7] \<and>
           elem_value s2 = elem_value abcdef \<and> bufs s2 = bufs abcdef"
  using reverse_twice [OF ring_abcdef] by simp

lemma elem_value_update_nodes [simp]:
  "next_of (s\<lparr>elem_value := v\<rparr>) = next_of s" "prev_of (s\<lparr>elem_value := v\<rparr>) = prev_of s"
  "live (s\<lparr>elem_value := v\<rparr>) = live s" "buf_at (s\<lparr>elem_value := v\<rparr>) = buf_at s"
  by (auto simp: next_of_def prev_of_def live_def node_at_def buf_at_def fun_eq_iff)

lemma value_at_update [simp]:
  "p \<noteq> NULL \<Longrightarrow>
   value_at (s\<lparr>elem_value := (elem_value s)(p \<mapsto> x)\<rparr>) q = (if q = p then Some x else value_at s q)"
  by (simp add: value_at_def)

lemma value_at_not_NULL: "value_at s p = Some v \<Longrightarrow> p \<noteq> NULL"
  by (auto simp: value_at_def split: if_splits)

lemma set_value_eq [simp]:
  "value_at s p = Some v \<Longrightarrow> set_value p w s = Inr (s\<lparr>elem_value := (elem_value s)(p \<mapsto> w)\<rparr>)"
  by (simp add: set_value_def)

lemma map_swap_pairs: "map f (swap_pairs xs) = swap_pairs (map f xs)"
  by (induction xs rule: swap_pairs.induct) auto

lemma q_swap_loop_ring:
  assumes "links (next_of s) (prev_of s) (todo @ [h])" "distinct (todo @ [h])"
    "\<forall>x\<in>set todo. value_at s x \<noteq> None"
  shows "\<exists>s'. q_swap_loop s h (hd (todo @ [h])) = Some (Inr s') \<and>
    nodes s' = nodes s \<and> bufs s' = bufs s \<and>
    map (value_at s') todo = swap_pairs (map (value_at s) todo) \<and>
    (\<forall>x. x \<notin> set todo \<longrightarrow> value_at s' x = value_at s x)"
  using assms
proof (induction todo arbitrary: s rule: swap_pairs.induct)
  case 1
  then show ?case by (subst q_swap_loop.simps) simp
next
  case (2 x)
  have "x \<noteq> h" "next_of s x = Some h" using "2.prems"(1,2) by auto
  then show ?case by (subst q_swap_loop.simps) simp
next
  case (3 x y zs)
  have xh: "x \<noteq> h" and yh: "y \<noteq> h" and xy: "x \<noteq> y" and xz: "x \<notin> set zs" and yz: "y \<notin> set zs"
    using "3.prems"(2) by auto
  have nx: "next_of s x = Some y" and ny: "next_of s y = Some (hd (zs @ [h]))"
    using "3.prems"(1) by (cases zs; auto)+
  obtain vx vy where v: "value_at s x = Some vx" "value_at s y = Some vy"
    using "3.prems"(3) by auto
  have nn: "x \<noteq> NULL" "y \<noteq> NULL" using v by (auto dest: value_at_not_NULL)
  let ?s1 = "s\<lparr>elem_value := (elem_value s)(x \<mapsto> vy, y \<mapsto> vx)\<rparr>"
  have "\<exists>s'. q_swap_loop ?s1 h (hd (zs @ [h])) = Some (Inr s') \<and>
    nodes s' = nodes ?s1 \<and> bufs s' = bufs ?s1 \<and>
    map (value_at s') zs = swap_pairs (map (value_at ?s1) zs) \<and>
    (\<forall>x. x \<notin> set zs \<longrightarrow> value_at s' x = value_at ?s1 x)"
  proof (rule "3.IH")
    show "links (next_of ?s1) (prev_of ?s1) (zs @ [h])"
      using "3.prems"(1) by (auto dest: links_tl)
    show "distinct (zs @ [h])" using "3.prems"(2) by simp
    show "\<forall>x\<in>set zs. value_at ?s1 x \<noteq> None"
      using "3.prems"(3) by (auto simp: value_at_def split: if_splits)
  qed
  then obtain s' where s': "q_swap_loop ?s1 h (hd (zs @ [h])) = Some (Inr s')"
    "nodes s' = nodes s" "bufs s' = bufs s"
    "map (value_at s') zs = swap_pairs (map (value_at ?s1) zs)"
    "\<forall>x. x \<notin> set zs \<longrightarrow> value_at s' x = value_at ?s1 x" by auto
  have same: "map (value_at ?s1) zs = map (value_at s) zs"
    using xz yz by (auto simp: value_at_def split: if_splits)
  have run: "q_swap_loop s h (hd ((x # y # zs) @ [h])) = Some (Inr s')"
    using xh yh nx ny v nn xy s'(1)
    by (subst q_swap_loop.simps) (simp add: fun_upd_twist)
  have "value_at s' x = Some vy" "value_at s' y = Some vx"
    using s'(5) xz yz nn xy by (auto simp: value_at_def split: if_splits)
  moreover have "\<forall>z. z \<notin> set (x # y # zs) \<longrightarrow> value_at s' z = value_at s z"
    using s'(5) by (auto simp: value_at_def split: if_splits)
  ultimately show ?case using run s'(2,3,4) same v by auto
qed

lemma q_swap_ring:
  assumes "ring s h ps" "\<forall>p\<in>set ps. value_at s p \<noteq> None"
  shows "\<exists>s'. q_swap h s = Some (Inr s') \<and> nodes s' = nodes s \<and> bufs s' = bufs s \<and>
    map (value_at s') ps = swap_pairs (map (value_at s) ps) \<and>
    (\<forall>x. x \<notin> set ps \<longrightarrow> value_at s' x = value_at s x)"
proof (cases "ps = []")
  case True
  then show ?thesis using assms(1) ring_head_not_NULL [OF assms(1)] by (auto simp: q_swap_def)
next
  case False
  have l: "links (next_of s) (prev_of s) (ps @ [h])"
    using ring_links [OF assms(1)] by (rule links_tl)
  have d: "distinct (ps @ [h])" using ring_distinct [OF assms(1)] by auto
  have n0: "next_of s h = Some (hd (ps @ [h]))" using ring_head_next [OF assms(1)] .
  show ?thesis
    using q_swap_loop_ring [OF l d assms(2)] n0 False assms(1) ring_head_not_NULL [OF assms(1)]
    by (simp add: q_swap_def)
qed

lemma ring_same_nodes: "ring s h ps \<Longrightarrow> nodes s' = nodes s \<Longrightarrow> ring s' h ps"
proof -
  assume r: "ring s h ps" and n: "nodes s' = nodes s"
  have "next_of s' = next_of s" "prev_of s' = prev_of s"
    by (rule ext, simp add: next_of_def prev_of_def node_at_def n)+
  then show ?thesis using r by (simp add: ring_def)
qed

text \<open>
  Claim C6: \<^verbatim>\<open>q_swap\<close> exchanges the payloads of each adjacent pair and leaves the nodes
  where they are: no link changes, so the ring holds the same nodes in the same order, and
  the strings read in traversal order are those of before with each pair exchanged, the
  last one of an odd-length ring untouched.
\<close>

theorem swap_exchanges_payloads:
  assumes "ring s head ps" "\<forall>p\<in>set ps. elem_ok s p"
  shows "\<exists>s'. q_swap head s = Some (Inr s') \<and> nodes s' = nodes s \<and> ring s' head ps \<and>
               map (cstr s') ps = swap_pairs (map (cstr s) ps)"
proof -
  have v: "\<forall>p\<in>set ps. value_at s p \<noteq> None" using assms(2) by (auto simp: elem_ok_def)
  obtain s' where s': "q_swap head s = Some (Inr s')" "nodes s' = nodes s" "bufs s' = bufs s"
    "map (value_at s') ps = swap_pairs (map (value_at s) ps)"
    using q_swap_ring [OF assms(1) v] by blast
  let ?f = "\<lambda>v. takeWhile (\<lambda>c. c \<noteq> NUL) (the (buf_at s (the v)))"
  have "map (cstr s') ps = map ?f (map (value_at s') ps)"
    using s'(3) by (simp add: cstr_def buf_at_def)
  also have "\<dots> = swap_pairs (map ?f (map (value_at s) ps))"
    by (simp only: s'(4) map_swap_pairs)
  also have "map ?f (map (value_at s) ps) = map (cstr s) ps" by (simp add: cstr_def)
  finally show ?thesis using s'(1,2) ring_same_nodes [OF assms(1) s'(2)] by blast
qed

theorem swap_exchanges_payloads_witness:
  "(\<exists>s'. q_swap 1 q1234 = Some (Inr s') \<and> nodes s' = nodes q1234 \<and> ring s' 1 [2, 3, 4, 5] \<and>
         map (cstr s') [2, 3, 4, 5] = [''2'', ''1'', ''4'', ''3'']) \<and>
   (\<exists>s'. q_swap 1 q123 = Some (Inr s') \<and> nodes s' = nodes q123 \<and> ring s' 1 [2, 3, 4] \<and>
         map (cstr s') [2, 3, 4] = [''2'', ''1'', ''3''])"
proof -
  have 1: "ring q1234 1 [2, 3, 4, 5]" "\<forall>p\<in>set [2, 3, 4, 5]. elem_ok q1234 p"
    "map (cstr q1234) [2, 3, 4, 5] = [''1'', ''2'', ''3'', ''4'']"
    by (simp_all add: q1234_def fixture_defs)
  have 2: "ring q123 1 [2, 3, 4]" "\<forall>p\<in>set [2, 3, 4]. elem_ok q123 p"
    "map (cstr q123) [2, 3, 4] = [''1'', ''2'', ''3'']"
    by (simp_all add: q123_def fixture_defs)
  show ?thesis
    using swap_exchanges_payloads [OF 1(1,2)] swap_exchanges_payloads [OF 2(1,2)]
    unfolding 1(3) 2(3) by simp
qed

section \<open>Comparison, merge and sort\<close>

lemma of_char_NUL_iff: "(of_char c :: nat) = 0 \<longleftrightarrow> c = NUL"
  using of_char_eq_iff [of c NUL, where ?'a = nat] by simp

lemma strcmp_bytes_sign:
  assumes "NUL \<in> set x" "NUL \<in> set y"
  shows "\<exists>c. strcmp_bytes x y = Inr c \<and>
    (c < 0 \<longleftrightarrow> takeWhile (\<lambda>c. c \<noteq> NUL) x < takeWhile (\<lambda>c. c \<noteq> NUL) y) \<and>
    (c = 0 \<longleftrightarrow> takeWhile (\<lambda>c. c \<noteq> NUL) x = takeWhile (\<lambda>c. c \<noteq> NUL) y)"
  using assms
proof (induction x y rule: strcmp_bytes.induct)
  case (3 a as b bs)
  show ?case
  proof (cases "a = b")
    case True
    then show ?thesis using 3 by (cases "a = NUL") auto
  next
    case False
    have pos: "c \<noteq> NUL \<Longrightarrow> 0 < (of_char c :: nat)" for c
      using of_char_NUL_iff [of c] by auto
    have lt: "(of_char a :: nat) < of_char b \<longleftrightarrow> a < b" by (simp add: less_char_def)
    have ne: "(of_char a :: nat) \<noteq> of_char b" using False by simp
    show ?thesis
      using False pos [of a] pos [of b] lt ne
      by (cases "a = NUL"; cases "b = NUL") auto
  qed
qed simp_all

lemma cmp_sign:
  assumes "elem_ok s p" "elem_ok s q"
  shows "\<exists>c. cmp s p q = Inr c \<and> (c < 0 \<longleftrightarrow> cstr s p < cstr s q) \<and>
             (c = 0 \<longleftrightarrow> cstr s p = cstr s q)"
proof -
  obtain v b where p: "value_at s p = Some v" "buf_at s v = Some b" "NUL \<in> set b"
    using assms(1) by (auto simp: elem_ok_def)
  obtain w c where q: "value_at s q = Some w" "buf_at s w = Some c" "NUL \<in> set c"
    using assms(2) by (auto simp: elem_ok_def)
  show ?thesis
    using strcmp_bytes_sign [OF p(3) q(3)] p q by (simp add: cmp_def strcmp_def cstr_def)
qed

lemma frame_data: "frame A s s' \<Longrightarrow> elem_ok s' = elem_ok s \<and> cstr s' = cstr s"
  by (auto simp: frame_def elem_ok_def cstr_def value_at_def buf_at_def fun_eq_iff)

lemma set_merge_order: "set (merge_order k as bs) = set as \<union> set bs"
  by (induction k as bs rule: merge_order.induct) auto

lemma mset_merge_order: "mset (merge_order k as bs) = mset as + mset bs"
  by (induction k as bs rule: merge_order.induct) auto

lemma sorted_merge_order:
  "sorted (map k as) \<Longrightarrow> sorted (map k bs) \<Longrightarrow> sorted (map k (merge_order k as bs))"
  by (induction k as bs rule: merge_order.induct) (auto simp: set_merge_order)


lemma LIST_HEAD_eff [simp]:
  assumes "d \<noteq> NULL"
  shows "next_of (LIST_HEAD d s) = (next_of s)(d \<mapsto> d)"
    "prev_of (LIST_HEAD d s) = (prev_of s)(d \<mapsto> d)"
    "live (LIST_HEAD d s) y = (y = d \<or> live s y)"
    "elem_value (LIST_HEAD d s) = elem_value s" "bufs (LIST_HEAD d s) = bufs s"
  using assms
  by (auto simp: LIST_HEAD_def next_of_def prev_of_def live_def node_at_def fun_eq_iff)

lemma end_of_scope_eff [simp]:
  "next_of (end_of_scope d s) = (next_of s)(d := None)"
  "prev_of (end_of_scope d s) = (prev_of s)(d := None)"
  "live (end_of_scope d s) y = (y \<noteq> d \<and> live s y)"
  "elem_value (end_of_scope d s) = elem_value s" "bufs (end_of_scope d s) = bufs s"
  by (auto simp: end_of_scope_def next_of_def prev_of_def live_def node_at_def fun_eq_iff)

lemma ring_LIST_HEAD:
  assumes "ring s h ps" "\<not> live s d" "d \<noteq> NULL"
  shows "ring (LIST_HEAD d s) h ps"
proof -
  have "d \<notin> set (h # ps)" using ring_live [OF assms(1)] assms(2) by auto
  then show ?thesis
    using assms(1,3) unfolding ring_def by (elim cyc_cong) auto
qed

lemma ring_LIST_HEAD_self: "d \<noteq> NULL \<Longrightarrow> ring (LIST_HEAD d s) d []"
  by (simp add: ring_def cyc_iff)

lemma ring_end_of_scope:
  assumes "ring s h ps" "d \<notin> set (h # ps)"
  shows "ring (end_of_scope d s) h ps"
  using assms unfolding ring_def by (elim cyc_cong) auto

lemma frame_scope:
  assumes "\<not> live s d" "d \<noteq> NULL" "frame A (LIST_HEAD d s) s'"
  shows "frame (A - {d}) s (end_of_scope d s')"
proof -
  have n1: "next_of s d = None" using assms(1) by (simp add: live_next_of)
  have n2: "prev_of s d = None" using assms(1) by (simp add: live_prev_of)
  have f: "\<forall>y. y \<notin> A \<longrightarrow> next_of s' y = ((next_of s)(d \<mapsto> d)) y \<and>
                             prev_of s' y = ((prev_of s)(d \<mapsto> d)) y"
    "\<forall>y. live s' y = (y = d \<or> live s y)" "elem_value s' = elem_value s" "bufs s' = bufs s"
    using assms(2,3) by (simp_all add: frame_def)
  show ?thesis
    unfolding frame_def using n1 n2 f assms(1) by (auto simp: fun_upd_def)
qed

lemma merge_loop_ring:
  assumes "k = cstr s" "ring s a as" "ring s b bs" "ring s d ds"
    "set (a # as) \<inter> set (b # bs) = {}" "set (a # as) \<inter> set (d # ds) = {}"
    "set (b # bs) \<inter> set (d # ds) = {}" "\<forall>p\<in>set (as @ bs). elem_ok s p"
  shows "\<exists>s' as' bs' out. merge_loop s a b d = Some (Inr s') \<and>
    ring s' a as' \<and> ring s' b bs' \<and> ring s' d (ds @ out) \<and> (as' = [] \<or> bs' = []) \<and>
    out @ as' @ bs' = merge_order k as bs \<and>
    frame (set (a # as) \<union> set (b # bs) \<union> set (d # ds)) s s'"
  using assms
proof (induction k as bs arbitrary: s ds rule: merge_order.induct)
  case (1 k bs)
  have "merge_loop s a b d = Some (Inr s)"
    using "1.prems"(2) by (subst merge_loop.simps) simp
  then show ?case
    using "1.prems"(2,3,4)
    by (intro exI [of _ s] exI [of _ "[]"] exI [of _ bs]) simp
next
  case (2 k x as)
  have "merge_loop s a b d = Some (Inr s)"
    using "2.prems"(2,3) by (subst merge_loop.simps) simp
  then show ?case
    using "2.prems"(2,3,4)
    by (intro exI [of _ s] exI [of _ "x # as"] exI [of _ "[]"]) simp
next
  case (3 k x as y bs)
  let ?F = "set (a # x # as) \<union> set (b # y # bs) \<union> set (d # ds)"
  have fa: "next_of s a = Some x" and fb: "next_of s b = Some y"
    using ring_head_next [OF "3.prems"(2)] ring_head_next [OF "3.prems"(3)] by auto
  obtain c where c: "cmp s x y = Inr c" "c < 0 \<longleftrightarrow> k x < k y"
    using cmp_sign [of s x y] "3.prems"(1,8) by auto
  show ?case
  proof (cases "k x < k y")
    case True
    obtain s1 where s1: "list_move_tail x d s = Inr s1" "ring s1 a as" "ring s1 d (ds @ [x])"
      "frame (set (a # x # as) \<union> set (d # ds)) s s1"
      using ring_move_tail [OF "3.prems"(2,4,6)] by blast
    have rb: "ring s1 b (y # bs)"
      using "3.prems"(3) s1(4) by (rule ring_frame) (use "3.prems"(5,7) in auto)
    have dx: "x \<notin> set as" using ring_distinct [OF "3.prems"(2)] by simp
    have "\<exists>s' as' bs' out. merge_loop s1 a b d = Some (Inr s') \<and>
      ring s' a as' \<and> ring s' b bs' \<and> ring s' d ((ds @ [x]) @ out) \<and> (as' = [] \<or> bs' = []) \<and>
      out @ as' @ bs' = merge_order k as (y # bs) \<and>
      frame (set (a # as) \<union> set (b # y # bs) \<union> set (d # ds @ [x])) s1 s'"
    proof (rule "3.IH"(1) [OF True _ s1(2) rb s1(3)])
      show "k = cstr s1" using "3.prems"(1) frame_data [OF s1(4)] by simp
      show "set (a # as) \<inter> set (b # y # bs) = {}" using "3.prems"(5) by auto
      show "set (a # as) \<inter> set (d # ds @ [x]) = {}" using "3.prems"(6) dx
        ring_distinct [OF "3.prems"(2)] by auto
      show "set (b # y # bs) \<inter> set (d # ds @ [x]) = {}" using "3.prems"(5,7) by auto
      show "\<forall>p\<in>set (as @ y # bs). elem_ok s1 p"
        using "3.prems"(8) frame_data [OF s1(4)] by simp
    qed
    then obtain s' as' bs' out where r: "merge_loop s1 a b d = Some (Inr s')"
      "ring s' a as'" "ring s' b bs'" "ring s' d (ds @ x # out)" "as' = [] \<or> bs' = []"
      "out @ as' @ bs' = merge_order k as (y # bs)"
      "frame (set (a # as) \<union> set (b # y # bs) \<union> set (d # ds @ [x])) s1 s'" by auto
    have run: "merge_loop s a b d = Some (Inr s')"
      using "3.prems"(2,3) fa fb c True s1(1) r(1) by (subst merge_loop.simps) simp
    have "frame ?F s s'"
      using frame_trans [OF s1(4) r(7)] by (rule frame_mono) auto
    moreover have "(x # out) @ as' @ bs' = merge_order k (x # as) (y # bs)"
      using r(6) True by simp
    ultimately show ?thesis using run r(2,3,4,5)
      by (intro exI [of _ s'] exI [of _ as'] exI [of _ bs'] exI [of _ "x # out"]) simp
  next
    case False
    obtain s1 where s1: "list_move_tail y d s = Inr s1" "ring s1 b bs" "ring s1 d (ds @ [y])"
      "frame (set (b # y # bs) \<union> set (d # ds)) s s1"
      using ring_move_tail [OF "3.prems"(3,4,7)] by blast
    have ra: "ring s1 a (x # as)"
      using "3.prems"(2) s1(4) by (rule ring_frame) (use "3.prems"(5,6) in auto)
    have dy: "y \<notin> set bs" using ring_distinct [OF "3.prems"(3)] by simp
    have "\<exists>s' as' bs' out. merge_loop s1 a b d = Some (Inr s') \<and>
      ring s' a as' \<and> ring s' b bs' \<and> ring s' d ((ds @ [y]) @ out) \<and> (as' = [] \<or> bs' = []) \<and>
      out @ as' @ bs' = merge_order k (x # as) bs \<and>
      frame (set (a # x # as) \<union> set (b # bs) \<union> set (d # ds @ [y])) s1 s'"
    proof (rule "3.IH"(2) [OF False _ ra s1(2) s1(3)])
      show "k = cstr s1" using "3.prems"(1) frame_data [OF s1(4)] by simp
      show "set (a # x # as) \<inter> set (b # bs) = {}" using "3.prems"(5) by auto
      show "set (a # x # as) \<inter> set (d # ds @ [y]) = {}" using "3.prems"(5,6) by auto
      show "set (b # bs) \<inter> set (d # ds @ [y]) = {}" using "3.prems"(7) dy
        ring_distinct [OF "3.prems"(3)] by auto
      show "\<forall>p\<in>set ((x # as) @ bs). elem_ok s1 p"
        using "3.prems"(8) frame_data [OF s1(4)] by simp
    qed
    then obtain s' as' bs' out where r: "merge_loop s1 a b d = Some (Inr s')"
      "ring s' a as'" "ring s' b bs'" "ring s' d (ds @ y # out)" "as' = [] \<or> bs' = []"
      "out @ as' @ bs' = merge_order k (x # as) bs"
      "frame (set (a # x # as) \<union> set (b # bs) \<union> set (d # ds @ [y])) s1 s'" by auto
    have run: "merge_loop s a b d = Some (Inr s')"
      using "3.prems"(2,3) fa fb c False s1(1) r(1) by (subst merge_loop.simps) simp
    have "frame ?F s s'"
      using frame_trans [OF s1(4) r(7)] by (rule frame_mono) auto
    moreover have "(y # out) @ as' @ bs' = merge_order k (x # as) (y # bs)"
      using r(6) False by simp
    ultimately show ?thesis using run r(2,3,4,5)
      by (intro exI [of _ s'] exI [of _ as'] exI [of _ bs'] exI [of _ "y # out"]) simp
  qed
qed

lemma frame_trans_same: "frame A s s1 \<Longrightarrow> frame A s1 s2 \<Longrightarrow> frame A s s2"
  using frame_trans [of A s s1 A s2] by simp

lemma merge_ring:
  assumes "ring s a as" "ring s b bs" "set (a # as) \<inter> set (b # bs) = {}"
    "\<not> live s d" "d \<noteq> NULL" "\<forall>p\<in>set (as @ bs). elem_ok s p"
  shows "\<exists>s'. merge a b d s = Some (Inr s') \<and> ring s' a (merge_order (cstr s) as bs) \<and>
    ring s' b [] \<and> frame (set (a # as) \<union> set (b # bs)) s s'"
proof -
  let ?F = "set (a # as) \<union> set (b # bs) \<union> {d}"
  let ?s0 = "LIST_HEAD d s"
  have da: "d \<notin> set (a # as)" and db: "d \<notin> set (b # bs)"
    using ring_live [OF assms(1)] ring_live [OF assms(2)] assms(4) by auto
  have a0: "ring ?s0 a as" and b0: "ring ?s0 b bs"
    using assms(1,2,4,5) by (auto intro: ring_LIST_HEAD)
  have l0: "live ?s0 d" using assms(5) by simp
  obtain s1 where s1: "INIT_LIST_HEAD d ?s0 = Inr s1" "ring s1 d []" "frame {d} ?s0 s1"
    using ring_init [OF l0] by blast
  have a1: "ring s1 a as" using a0 s1(3) by (rule ring_frame) (use da in auto)
  have b1: "ring s1 b bs" using b0 s1(3) by (rule ring_frame) (use db in auto)
  have k1: "cstr s1 = cstr s" "elem_ok s1 = elem_ok s"
    using frame_data [OF s1(3)] assms(5) by (auto simp: cstr_def elem_ok_def value_at_def buf_at_def fun_eq_iff)
  have "\<exists>s' as' bs' out. merge_loop s1 a b d = Some (Inr s') \<and>
    ring s' a as' \<and> ring s' b bs' \<and> ring s' d ([] @ out) \<and> (as' = [] \<or> bs' = []) \<and>
    out @ as' @ bs' = merge_order (cstr s) as bs \<and>
    frame (set (a # as) \<union> set (b # bs) \<union> set (d # [])) s1 s'"
    by (rule merge_loop_ring [OF _ a1 b1 s1(2)]) (use k1 assms(3,6) da db in auto)
  then obtain s2 as' bs' out where s2: "merge_loop s1 a b d = Some (Inr s2)"
    "ring s2 a as'" "ring s2 b bs'" "ring s2 d out" "as' = [] \<or> bs' = []"
    "out @ as' @ bs' = merge_order (cstr s) as bs" "frame ?F s1 s2" by auto
  have sets: "set out \<union> set as' \<union> set bs' = set as \<union> set bs"
    using arg_cong [OF s2(6), of set] by (simp add: set_merge_order Un_assoc)
  have dist: "distinct (out @ as' @ bs')"
  proof -
    have "mset (out @ as' @ bs') = mset (as @ bs)"
      using arg_cong [OF s2(6), of mset] by (simp add: mset_merge_order)
    moreover have "distinct (as @ bs)"
      using ring_distinct [OF assms(1)] ring_distinct [OF assms(2)] assms(3) by auto
    ultimately show ?thesis using mset_eq_imp_distinct_iff by blast
  qed
  have nin: "a \<notin> set out \<union> set as' \<union> set bs'" "b \<notin> set out \<union> set as' \<union> set bs'"
    "d \<notin> set out \<union> set as' \<union> set bs'" "a \<noteq> b" "a \<noteq> d" "b \<noteq> d"
    unfolding sets using ring_distinct [OF assms(1)] ring_distinct [OF assms(2)] assms(3) da db
    by auto
  obtain s3 where s3: "(if \<not> (as' = []) then list_splice_tail_init a d s2 else Inr s2) = Inr s3"
    "ring s3 a []" "ring s3 d (out @ as')" "ring s3 b bs'" "frame ?F s2 s3"
  proof (cases "as' = []")
    case True
    then show ?thesis using that [of s2] s2(2,3,4) by simp
  next
    case False
    obtain s3 where x: "list_splice_tail_init a d s2 = Inr s3" "ring s3 d (out @ as')" "ring s3 a []"
      "frame (set (a # as') \<union> set (d # out)) s2 s3"
      using ring_splice_tail_init [OF s2(2,4)] nin dist by auto
    have "ring s3 b bs'" using s2(3) x(4) by (rule ring_frame) (use nin dist in auto)
    moreover have "frame ?F s2 s3" using x(4) by (rule frame_mono) (use sets in auto)
    ultimately show ?thesis using that [of s3] x False by simp
  qed
  obtain s4 where s4: "(if \<not> (bs' = []) then list_splice_tail_init b d s3 else Inr s3) = Inr s4"
    "ring s4 a []" "ring s4 d (out @ as' @ bs')" "ring s4 b []" "frame ?F s3 s4"
  proof (cases "bs' = []")
    case True
    then show ?thesis using that [of s3] s3(2,3,4) by simp
  next
    case False
    obtain s4 where x: "list_splice_tail_init b d s3 = Inr s4" "ring s4 d ((out @ as') @ bs')"
      "ring s4 b []" "frame (set (b # bs') \<union> set (d # out @ as')) s3 s4"
      using ring_splice_tail_init [OF s3(4,3)] nin dist by auto
    have "ring s4 a []" using s3(2) x(4) by (rule ring_frame) (use nin dist in auto)
    moreover have "frame ?F s3 s4" using x(4) by (rule frame_mono) (use sets in auto)
    ultimately show ?thesis using that [of s4] x False by simp
  qed
  obtain s5 where s5: "list_splice d a s4 = Inr s5" "ring s5 a ((out @ as' @ bs') @ [])"
    "frame (set (d # out @ as' @ bs') \<union> set (a # [])) s4 s5"
    using ring_splice [OF s4(3,2)] nin by auto
  have b5: "ring s5 b []" using s4(4) s5(3) by (rule ring_frame) (use nin in auto)
  let ?s6 = "end_of_scope d s5"
  have e3: "list_empty s2 a = Inr (as' = [])" and e5: "list_empty s3 b = Inr (bs' = [])"
    using s2(2) s3(4) by simp_all
  have run: "merge a b d s = Some (Inr ?s6)"
    unfolding merge_def Let_def
    by (simp only: s1(1) s2(1) e3 s3(1) e5 s4(1) s5(1) bind_opt_simps bind_run_simps)
  have dm: "d \<notin> set (a # merge_order (cstr s) as bs)"
    using da db by (simp add: set_merge_order)
  have "ring s5 a (merge_order (cstr s) as bs)" using s5(2) s2(6) by simp
  from ring_end_of_scope [OF this dm] have "ring ?s6 a (merge_order (cstr s) as bs)" .
  moreover have "ring ?s6 b []"
    using ring_end_of_scope [OF b5, of d] nin by simp
  moreover have "frame (set (a # as) \<union> set (b # bs)) s ?s6"
  proof -
    have f5: "frame ?F s4 s5" using s5(3) by (rule frame_mono) (use sets in auto)
    have f1: "frame ?F ?s0 s1" using s1(3) by (rule frame_mono) auto
    have "frame ?F ?s0 s5"
      by (rule frame_trans_same [OF frame_trans_same [OF frame_trans_same
            [OF frame_trans_same [OF f1 s2(7)] s3(5)] s4(5)] f5])
    from frame_scope [OF assms(4,5) this] show ?thesis
      by (rule frame_mono) auto
  qed
  ultimately show ?thesis using run by blast
qed

lemma q_sort_ring:
  assumes "ring s h ps" "\<forall>p\<in>set ps. elem_ok s p" "\<forall>p. live s p \<longrightarrow> p < fr"
  shows "\<exists>s' ps'. q_sort h fr s = Some (Inr s') \<and> ring s' h ps' \<and> mset ps' = mset ps \<and>
    sorted (map (cstr s) ps') \<and> frame (set (h # ps)) s s'"
  using assms
proof (induction "length ps" arbitrary: s h ps fr rule: less_induct)
  case less
  have hn: "h \<noteq> NULL" using less.prems(1) by (rule ring_head_not_NULL)
  consider (empty) "ps = []" | (one) x where "ps = [x]" | (more) "2 \<le> length ps"
    by (cases ps rule: list.exhaust; cases "tl ps"; auto)
  then show ?case
  proof cases
    case empty
    have "q_sort h fr s = Some (Inr s)"
      using hn less.prems(1) empty by (subst q_sort.simps) simp
    then show ?thesis using less.prems(1) empty by (intro exI [of _ s] exI [of _ "[]"]) simp
  next
    case one
    have "q_sort h fr s = Some (Inr s)"
      using hn less.prems(1) one ring_head_next [OF less.prems(1)] ring_head_prev [OF less.prems(1)]
      by (subst q_sort.simps) simp
    then show ?thesis using less.prems(1) one by (intro exI [of _ s] exI [of _ "[x]"]) simp
  next
    case more
    let ?n = "length ps"
    define k where "k = (?n - 1) div 2"
    define m where "m = ps ! k"
    define xs where "xs = take k ps"
    define ys where "ys = drop (Suc k) ps"
    have kn: "k < ?n" "Suc k < ?n" using more by (auto simp: k_def)
    have ps: "ps = xs @ m # ys"
      using id_take_nth_drop [OF kn(1)] by (simp add: xs_def ys_def m_def)
    have ne: "ps \<noteq> []" using more by auto
    have lens: "length ys < ?n" "length (xs @ [m]) < ?n"
      using kn by (auto simp: xs_def ys_def)
    have d: "distinct (h # ps)" using less.prems(1) by (rule ring_distinct)
    have e0: "list_empty s h = Inr False" using less.prems(1) ne by simp
    have e1: "get_prev s h = Inr (last ps)" and e2: "get_next s h = Inr (hd ps)"
      using ring_head_prev [OF less.prems(1)] ring_head_next [OF less.prems(1)] ne by auto
    have neq: "(last ps = hd ps) = False"
    proof -
      have "hd ps = ps ! 0" "last ps = ps ! (?n - 1)"
        using ne by (simp_all add: hd_conv_nth last_conv_nth)
      moreover have "ps ! (?n - 1) \<noteq> ps ! 0"
      proof -
        have dps: "distinct ps" using d by simp
        have i: "?n - 1 < ?n" "0 < ?n" using more by auto
        have "(ps ! (?n - 1) = ps ! 0) = (?n - 1 = 0)"
          by (rule nth_eq_iff_index_eq [OF dps i])
        then show ?thesis using more by simp
      qed
      ultimately show ?thesis by simp
    qed
    have e3: "q_mid h s = Some (Inr m)"
      using q_mid_ring [OF less.prems(1) ne] by (simp add: m_def k_def)
    have lh: "live s h" using ring_live [OF less.prems(1)] by simp
    have frn: "fr \<noteq> NULL" "\<not> live s fr" using less.prems(3) lh by auto
    let ?s0 = "LIST_HEAD fr s"
    have r0: "ring ?s0 h ps" using less.prems(1) frn by (auto intro: ring_LIST_HEAD)
    have l0: "live ?s0 fr" using frn by simp
    obtain s1 where s1: "INIT_LIST_HEAD fr ?s0 = Inr s1" "ring s1 fr []" "frame {fr} ?s0 s1"
      using ring_init [OF l0] by blast
    have frp: "fr \<notin> set (h # ps)" using ring_live [OF less.prems(1)] frn by auto
    have r1: "ring s1 h (xs @ m # ys)"
      using r0 s1(3) unfolding ps [symmetric] by (rule ring_frame) (use frp in auto)
    have l1: "live s1 fr" using l0 frame_live [OF s1(3)] by simp
    obtain s2 where s2: "list_cut_position fr h m s1 = Inr s2" "ring s2 fr (xs @ [m])"
      "ring s2 h ys" "frame (insert fr (set (h # xs @ m # ys))) s1 s2"
      using ring_cut [OF r1 l1] frp ps by auto
    let ?F = "insert fr (set (h # ps))"
    have f01: "frame ?F ?s0 s1" using s1(3) by (rule frame_mono) auto
    have f12: "frame ?F s1 s2" using s2(4) ps by simp
    have f02: "frame ?F ?s0 s2" using f01 f12 by (rule frame_trans_same)
    have data2: "cstr s2 = cstr s" "elem_ok s2 = elem_ok s"
      using frame_data [OF f02] frn(1) by (auto simp: cstr_def elem_ok_def value_at_def buf_at_def fun_eq_iff)
    have live2: "\<forall>p. live s2 p \<longrightarrow> p < fr + 1"
      using f02 less.prems(3) frn(1) by (auto simp: frame_def less_Suc_eq)
    have "\<exists>s' ps'. q_sort h (fr + 1) s2 = Some (Inr s') \<and> ring s' h ps' \<and> mset ps' = mset ys \<and>
      sorted (map (cstr s2) ps') \<and> frame (set (h # ys)) s2 s'"
      by (rule less.hyps [OF lens(1) s2(3)]) (use data2 less.prems(2) ps live2 in auto)
    then obtain s3 ys' where s3: "q_sort h (fr + 1) s2 = Some (Inr s3)" "ring s3 h ys'"
      "mset ys' = mset ys" "sorted (map (cstr s) ys')" "frame (set (h # ys)) s2 s3"
      using data2 by auto
    have sy: "set ys' = set ys" using s3(3) by (rule mset_eq_setD)
    have r3: "ring s3 fr (xs @ [m])"
      using s2(2) s3(5) by (rule ring_frame) (use d frp ps in auto)
    have f23: "frame ?F s2 s3" using s3(5) by (rule frame_mono) (use ps in auto)
    have f03: "frame ?F ?s0 s3" using f02 f23 by (rule frame_trans_same)
    have data3: "cstr s3 = cstr s" "elem_ok s3 = elem_ok s"
      using frame_data [OF s3(5)] data2 by auto
    have live3: "\<forall>p. live s3 p \<longrightarrow> p < fr + 1"
      using live2 frame_live [OF s3(5)] by simp
    have "\<exists>s' ps'. q_sort fr (fr + 1) s3 = Some (Inr s') \<and> ring s' fr ps' \<and>
      mset ps' = mset (xs @ [m]) \<and> sorted (map (cstr s3) ps') \<and> frame (set (fr # xs @ [m])) s3 s'"
      by (rule less.hyps [OF lens(2) r3]) (use data3 less.prems(2) ps live3 in auto)
    then obtain s4 xs' where s4: "q_sort fr (fr + 1) s3 = Some (Inr s4)" "ring s4 fr xs'"
      "mset xs' = mset (xs @ [m])" "sorted (map (cstr s) xs')" "frame (set (fr # xs @ [m])) s3 s4"
      using data3 by auto
    have sx: "set xs' = set (xs @ [m])" using s4(3) by (rule mset_eq_setD)
    have r4: "ring s4 h ys'"
      using s3(2) s4(5) by (rule ring_frame) (use d frp ps sy in auto)
    have f34: "frame ?F s3 s4" using s4(5) by (rule frame_mono) (use ps in auto)
    have f04: "frame ?F ?s0 s4" using f03 f34 by (rule frame_trans_same)
    have data4: "cstr s4 = cstr s" "elem_ok s4 = elem_ok s"
      using frame_data [OF s4(5)] data3 by auto
    have live4: "\<not> live s4 (fr + 1)" "fr + 1 \<noteq> NULL"
      using live3 frame_live [OF s4(5)] by auto
    have "\<exists>s'. merge h fr (fr + 1) s4 = Some (Inr s') \<and>
      ring s' h (merge_order (cstr s4) ys' xs') \<and> ring s' fr [] \<and>
      frame (set (h # ys') \<union> set (fr # xs')) s4 s'"
      by (rule merge_ring [OF r4 s4(2) _ live4])
        (use d frp ps sy sx data4 less.prems(2) in auto)
    then obtain s5 where s5: "merge h fr (fr + 1) s4 = Some (Inr s5)"
      "ring s5 h (merge_order (cstr s) ys' xs')"
      "frame (set (h # ys') \<union> set (fr # xs')) s4 s5"
      using data4 by auto
    have f45: "frame ?F s4 s5" using s5(3) by (rule frame_mono) (use ps sy sx in auto)
    have f05: "frame ?F ?s0 s5" using f04 f45 by (rule frame_trans_same)
    let ?s6 = "end_of_scope fr s5"
    let ?ps' = "merge_order (cstr s) ys' xs'"
    have run: "q_sort h fr s = Some (Inr ?s6)"
      using hn
      by (subst q_sort.simps)
        (simp only: e0 e1 e2 neq e3 s1(1) s2(1) s3(1) s4(1) s5(1) Let_def if_False
          bind_opt_simps bind_run_simps)
    have frm: "fr \<notin> set (h # ?ps')"
      using frp ps sy sx by (auto simp: set_merge_order)
    have "ring ?s6 h ?ps'" using s5(2) frm by (rule ring_end_of_scope)
    moreover have "mset ?ps' = mset ps"
      using s3(3) s4(3) ps by (simp add: mset_merge_order)
    moreover have "sorted (map (cstr s) ?ps')"
      using s3(4) s4(4) by (rule sorted_merge_order)
    moreover have "frame (set (h # ps)) s ?s6"
      using frame_scope [OF frn(2,1) f05] by (rule frame_mono) auto
    ultimately show ?thesis using run by blast
  qed
qed


lemma sorted_cmp:
  assumes "sorted (map (cstr s) ps)" "\<forall>p\<in>set ps. elem_ok s p"
  shows "successively (\<lambda>e1 e2. \<exists>c. cmp s e1 e2 = Inr c \<and> c \<le> 0) ps"
  using assms
proof (induction ps rule: induct_list012)
  case (3 x y zs)
  obtain c where c: "cmp s x y = Inr c" "c < 0 \<longleftrightarrow> cstr s x < cstr s y"
    "c = 0 \<longleftrightarrow> cstr s x = cstr s y"
    using cmp_sign [of s x y] 3(4) by auto
  have "cstr s x \<le> cstr s y" using 3(3) by simp
  then have "c \<le> 0" using c by (cases "cstr s x = cstr s y") auto
  then show ?case using 3 c by simp
qed simp_all

text \<open>
  Claim C3: after \<^verbatim>\<open>q_sort\<close> every adjacent pair of elements, in traversal order, compares
  \<open>\<le> 0\<close> under the lexicographic string comparator. On every ring whose elements hold
  NUL-terminated strings, with the frames of the recursion above every live node, \<^verbatim>\<open>q_sort\<close>
  returns; the ring then holds the same elements with the strings they had, the strings
  read in traversal order are sorted in the lexicographic order of their bytes, and \<^verbatim>\<open>cmp\<close>
  of each element with its successor returns a value \<open>\<le> 0\<close>.
\<close>

theorem sort_orders_adjacent:
  assumes "ring s head ps" "\<forall>p\<in>set ps. elem_ok s p" "\<forall>p. live s p \<longrightarrow> p < stack"
  shows "\<exists>s' ps'. q_sort head stack s = Some (Inr s') \<and> ring s' head ps' \<and>
    mset ps' = mset ps \<and> (\<forall>p\<in>set ps. cstr s' p = cstr s p) \<and>
    sorted (map (cstr s') ps') \<and>
    successively (\<lambda>e1 e2. cstr s' e1 \<le> cstr s' e2) ps' \<and>
    successively (\<lambda>e1 e2. \<exists>c. cmp s' e1 e2 = Inr c \<and> c \<le> 0) ps'"
proof -
  obtain s' ps' where r: "q_sort head stack s = Some (Inr s')" "ring s' head ps'"
    "mset ps' = mset ps" "sorted (map (cstr s) ps')" "frame (set (head # ps)) s s'"
    using q_sort_ring [OF assms] by blast
  have "set ps' = set ps" using r(3) by (rule mset_eq_setD)
  then have s: "sorted (map (cstr s') ps')" and e: "\<forall>p\<in>set ps'. elem_ok s' p"
    using r(4) assms(2) frame_data [OF r(5)] by auto
  have k: "\<forall>p\<in>set ps. cstr s' p = cstr s p" using frame_data [OF r(5)] by simp
  have a: "successively (\<lambda>e1 e2. cstr s' e1 \<le> cstr s' e2) ps'"
    using s by (induction ps' rule: induct_list012) simp_all
  have "successively (\<lambda>e1 e2. \<exists>c. cmp s' e1 e2 = Inr c \<and> c \<le> 0) ps'"
    using s e by (rule sorted_cmp)
  then show ?thesis using r(1,2,3) k s a by blast
qed

theorem sort_orders_adjacent_witness:
  "\<exists>s' ps'. q_sort 1 50 dbacbe = Some (Inr s') \<and> ring s' 1 ps' \<and>
    mset ps' = mset [2, 3, 4, 5, 6, 7] \<and>
    map (cstr dbacbe) [2, 3, 4, 5, 6, 7] = [''d'', ''b'', ''a'', ''c'', ''b'', ''e''] \<and>
    map (cstr s') ps' = [''a'', ''b'', ''b'', ''c'', ''d'', ''e''] \<and>
    successively (\<lambda>e1 e2. \<exists>c. cmp s' e1 e2 = Inr c \<and> c \<le> 0) ps'"
proof -
  have 1: "ring dbacbe 1 [2, 3, 4, 5, 6, 7]" "\<forall>p\<in>set [2, 3, 4, 5, 6, 7]. elem_ok dbacbe p"
    by (simp_all add: dbacbe_def fixture_defs)
  have 2: "\<forall>p. live dbacbe p \<longrightarrow> p < 50"
    by (auto simp: dbacbe_def queue_state_def live_def node_at_def split: if_splits)
  have k: "map (cstr dbacbe) [2, 3, 4, 5, 6, 7] = [''d'', ''b'', ''a'', ''c'', ''b'', ''e'']"
    by (simp add: dbacbe_def fixture_defs)
  obtain s' ps' where r: "q_sort 1 50 dbacbe = Some (Inr s')" "ring s' 1 ps'"
    "mset ps' = mset [2, 3, 4, 5, 6, 7]" "\<forall>p\<in>set [2, 3, 4, 5, 6, 7]. cstr s' p = cstr dbacbe p"
    "sorted (map (cstr s') ps')"
    "successively (\<lambda>e1 e2. \<exists>c. cmp s' e1 e2 = Inr c \<and> c \<le> 0) ps'"
    using sort_orders_adjacent [OF 1 2] by blast
  have "set ps' = set [2, 3, 4, 5, 6, 7]" using r(3) by (rule mset_eq_setD)
  then have "map (cstr s') ps' = map (cstr dbacbe) ps'" using r(4) by simp
  then have "mset (map (cstr s') ps') = mset (map (cstr dbacbe) [2, 3, 4, 5, 6, 7])"
    using r(3) by (metis mset_map)
  then have "mset (map (cstr s') ps') = mset [''d'', ''b'', ''a'', ''c'', ''b'', ''e'']"
    by (simp only: k)
  from properties_for_sort [OF this r(5)]
  have "map (cstr s') ps' = [''a'', ''b'', ''b'', ''c'', ''d'', ''e'']"
    by (simp add: less_eq_char_def less_char_def)
  then show ?thesis
    using r(1,2,3,6) k by - (intro exI [of _ s'] exI [of _ ps'] conjI; assumption)
qed




section \<open>Deleting duplicates\<close>

lemma dedup_cong: "\<forall>x\<in>set xs. k x = k' x \<Longrightarrow> dedup k c xs = dedup k' c xs"
  by (induction xs arbitrary: c) auto

lemma subseq_dedup: "subseq (dedup k c xs) xs"
  by (induction xs arbitrary: c) auto

lemma set_dedup: "set (dedup k c xs) \<subseteq> set xs"
  by (induction xs arbitrary: c) auto

lemma dedup_sorted_Some:
  "sorted (map k xs) \<Longrightarrow> \<forall>x\<in>set xs. v \<le> k x \<Longrightarrow>
   distinct (map k (dedup k (Some v) xs)) \<and> v \<notin> k ` set (dedup k (Some v) xs) \<and>
   k ` set (dedup k (Some v) xs) = k ` set xs - {v}"
proof (induction xs arbitrary: v)
  case (Cons x xs)
  show ?case
  proof (cases "v = k x")
    case True
    then show ?thesis using Cons by auto
  next
    case False
    have ih: "distinct (map k (dedup k (Some (k x)) xs))" "k x \<notin> k ` set (dedup k (Some (k x)) xs)"
      "k ` set (dedup k (Some (k x)) xs) = k ` set xs - {k x}"
      using Cons.IH [of "k x"] Cons.prems(1) by auto
    have "v \<notin> k ` set xs" using Cons.prems False by force
    then show ?thesis using False ih by auto
  qed
qed simp

lemma dedup_sorted:
  assumes "sorted (map k xs)"
  shows "distinct (map k (dedup k None xs))" "k ` set (dedup k None xs) = k ` set xs"
proof -
  show "distinct (map k (dedup k None xs))"
    using assms dedup_sorted_Some [of k "tl xs" "k (hd xs)"] by (cases xs) auto
  show "k ` set (dedup k None xs) = k ` set xs"
    using assms dedup_sorted_Some [of k "tl xs" "k (hd xs)"] by (cases xs) auto
qed

lemma released_eff [simp]:
  "next_of (released x v s) = (next_of s)(x := None)"
  "prev_of (released x v s) = (prev_of s)(x := None)"
  "live (released x v s) y = (y \<noteq> x \<and> live s y)"
  "value_at (released x v s) y = (if y = x then None else value_at s y)"
  "buf_at (released x v s) w = (if w = v then None else buf_at s w)"
  by (auto simp: released_def next_of_def prev_of_def live_def node_at_def value_at_def
      buf_at_def fun_eq_iff)

lemma q_release_element_eq:
  assumes "value_at s x = Some v" "buf_at s v = Some b" "live s x"
  shows "q_release_element x s = Inr (released x v s)"
proof -
  have "x \<noteq> NULL" "v \<noteq> NULL" "elem_value s x = Some v" "bufs s v = Some b" "nodes s x \<noteq> None"
    using assms by (auto simp: value_at_def buf_at_def live_def node_at_def split: if_splits)
  then show ?thesis
    using assms(1)
    by (simp add: q_release_element_def free_buf_def free_element_def released_def)
qed

lemma ring_released:
  assumes "ring s h ps" "x \<notin> set (h # ps)"
  shows "ring (released x v s) h ps"
  using assms unfolding ring_def by (elim cyc_cong) auto

lemma frame_value_at: "frame A s s' \<Longrightarrow> value_at s' = value_at s \<and> buf_at s' = buf_at s"
  by (auto simp: frame_def value_at_def buf_at_def fun_eq_iff)

lemma elem_data_cong:
  assumes "value_at s' p = value_at s p" "buf_at s' (strptr s p) = buf_at s (strptr s p)"
  shows "elem_ok s' p = elem_ok s p \<and> cstr s' p = cstr s p \<and> strptr s' p = strptr s p"
  using assms by (cases "value_at s p") (auto simp: elem_ok_def cstr_def strptr_def)

lemma q_delete_dup_loop_ring:
  assumes "ring s h (kept @ todo)" "\<forall>p\<in>set (kept @ todo). elem_ok s p"
    "distinct (map (strptr s) (kept @ todo))" "cur = NULL \<or> cur \<in> set kept"
    "todo \<noteq> [] \<longrightarrow> next_of s (hd todo) = Some safe"
    "c = (if cur = NULL then None else Some (cstr s cur))"
  shows "\<exists>s'. q_delete_dup_loop s h (hd (todo @ [h])) safe cur = Some (Inr s') \<and>
    ring s' h (kept @ dedup (cstr s) c todo) \<and>
    (\<forall>p\<in>set (kept @ dedup (cstr s) c todo).
        value_at s' p = value_at s p \<and> buf_at s' (strptr s p) = buf_at s (strptr s p)) \<and>
    (\<forall>p. live s' p \<longrightarrow> live s p) \<and> (\<forall>w. buf_at s' w = buf_at s w \<or> buf_at s' w = None)"
  using assms
proof (induction todo arbitrary: s kept cur safe c)
  case Nil
  have "q_delete_dup_loop s h (hd ([] @ [h])) safe cur = Some (Inr s)"
    by (subst q_delete_dup_loop.simps) simp
  then show ?case using Nil.prems(1) by simp
next
  case (Cons x rest)
  let ?k = "cstr s"
  have d: "distinct (h # kept @ x # rest)" using Cons.prems(1) by (rule ring_distinct)
  have xh: "(x = h) = False" using d by auto
  have nx: "next_of s x = Some (hd (rest @ [h]))" using Cons.prems(1) by (rule ring_next)
  then have sf: "safe = hd (rest @ [h])" using Cons.prems(5) by simp
  have okx: "elem_ok s x" using Cons.prems(2) by simp
  have dup: "(if cur \<noteq> NULL then bind_res (cmp s cur x) (\<lambda>c. Inr (c = 0)) else Inr False)
      = Inr (c = Some (?k x))"
  proof (cases "cur = NULL")
    case True
    then show ?thesis using Cons.prems(6) by simp
  next
    case False
    then have "elem_ok s cur" using Cons.prems(2,4) by auto
    then obtain cv where "cmp s cur x = Inr cv" "cv = 0 \<longleftrightarrow> ?k cur = ?k x"
      using cmp_sign [of s cur x] okx by auto
    then show ?thesis using False Cons.prems(6) by simp
  qed
  have sin: "safe \<in> set (h # kept @ rest)" unfolding sf by (cases rest) auto
  show ?case
  proof (cases "c = Some (?k x)")
    case True
    obtain s1 where s1: "list_del x s = Inr s1" "ring s1 h (kept @ rest)"
      "frame (set (h # kept @ rest)) s s1"
      using ring_del [OF Cons.prems(1)] by blast
    obtain v b where v: "value_at s x = Some v" "buf_at s v = Some b" "NUL \<in> set b"
      using okx by (auto simp: elem_ok_def)
    have lx: "live s x" using ring_live [OF Cons.prems(1), of x] by simp
    have v1: "value_at s1 x = Some v" "buf_at s1 v = Some b" "live s1 x"
      using v lx frame_value_at [OF s1(3)] frame_live [OF s1(3)] by auto
    let ?s3 = "released x v s1"
    have rel: "q_release_element x s1 = Inr ?s3" using v1 by (rule q_release_element_eq)
    have d2: "bind_res (list_del x s) (\<lambda>s. bind_res (q_release_element x s) (\<lambda>s. Inr (s, cur)))
      = Inr (?s3, cur)"
      by (simp only: s1(1) rel bind_res_simps)
    have xn: "x \<notin> set (h # kept @ rest)" using d by auto
    have r3: "ring ?s3 h (kept @ rest)" using s1(2) xn by (rule ring_released)
    have "live ?s3 safe" using ring_live [OF r3 sin] .
    then obtain sf' where g: "next_of ?s3 safe = Some sf'" by (auto simp: live_next_of)
    have sp: "strptr s x = v" using v by (simp add: strptr_def)
    have same: "value_at ?s3 p = value_at s p \<and> buf_at ?s3 (strptr s p) = buf_at s (strptr s p)"
      if "p \<in> set (kept @ rest)" for p
    proof -
      have "p \<noteq> x" using that d by auto
      moreover have "strptr s x \<notin> strptr s ` set (kept @ rest)"
        using Cons.prems(3) by auto
      then have "strptr s p \<noteq> v" using that sp by (metis imageI)
      ultimately show ?thesis using frame_value_at [OF s1(3)] by simp
    qed
    have same': "elem_ok ?s3 p \<and> cstr ?s3 p = cstr s p \<and> strptr ?s3 p = strptr s p"
      if "p \<in> set (kept @ rest)" for p
    proof -
      have "elem_ok s p" using that Cons.prems(2) by auto
      then show ?thesis
        using elem_data_cong [of ?s3 p s] same [OF that] by blast
    qed
    have "\<exists>s'. q_delete_dup_loop ?s3 h (hd (rest @ [h])) sf' cur = Some (Inr s') \<and>
      ring s' h (kept @ dedup (cstr ?s3) c rest) \<and>
      (\<forall>p\<in>set (kept @ dedup (cstr ?s3) c rest).
          value_at s' p = value_at ?s3 p \<and> buf_at s' (strptr ?s3 p) = buf_at ?s3 (strptr ?s3 p)) \<and>
      (\<forall>p. live s' p \<longrightarrow> live ?s3 p) \<and> (\<forall>w. buf_at s' w = buf_at ?s3 w \<or> buf_at s' w = None)"
    proof (rule Cons.IH [OF r3])
      show "\<forall>p\<in>set (kept @ rest). elem_ok ?s3 p" using same' by blast
      have meq: "map (strptr ?s3) (kept @ rest) = map (strptr s) (kept @ rest)"
        by (rule map_cong [OF refl]) (use same' in blast)
      have "distinct (map (strptr s) (kept @ rest))" using Cons.prems(3) by auto
      then show "distinct (map (strptr ?s3) (kept @ rest))" by (simp only: meq)
      show "cur = NULL \<or> cur \<in> set kept" using Cons.prems(4) .
      show "rest \<noteq> [] \<longrightarrow> next_of ?s3 (hd rest) = Some sf'"
      proof
        assume "rest \<noteq> []"
        then have e: "safe = hd rest" using sf by simp
        show "next_of ?s3 (hd rest) = Some sf'" using g unfolding e .
      qed
      show "c = (if cur = NULL then None else Some (cstr ?s3 cur))"
        using Cons.prems(4,6) same' by auto
    qed
    moreover have dd: "dedup (cstr ?s3) c rest = dedup ?k c rest"
      by (rule dedup_cong) (use same' in auto)
    ultimately obtain s' where s': "q_delete_dup_loop ?s3 h (hd (rest @ [h])) sf' cur = Some (Inr s')"
      "ring s' h (kept @ dedup ?k c rest)"
      "\<forall>p\<in>set (kept @ dedup ?k c rest).
          value_at s' p = value_at ?s3 p \<and> buf_at s' (strptr ?s3 p) = buf_at ?s3 (strptr ?s3 p)"
      "\<forall>p. live s' p \<longrightarrow> live ?s3 p" "\<forall>w. buf_at s' w = buf_at ?s3 w \<or> buf_at s' w = None"
      by auto
    have g': "get_next ?s3 safe = Inr sf'" using g by simp
    have run: "q_delete_dup_loop s h (hd ((x # rest) @ [h])) safe cur = Some (Inr s')"
      unfolding s'(1) [symmetric] sf [symmetric]
      by (subst q_delete_dup_loop.simps)
        (simp only: list.sel append_Cons xh Let_def dup True d2 g' if_False if_True refl
          bind_opt_simps case_prod_conv)
    have sub: "set (kept @ dedup ?k c rest) \<subseteq> set (kept @ rest)"
      using set_dedup [of ?k c rest] by auto
    have p1: "\<forall>p\<in>set (kept @ dedup ?k c rest).
        value_at s' p = value_at s p \<and> buf_at s' (strptr s p) = buf_at s (strptr s p)"
      using s'(3) same same' sub by (metis subsetD)
    have p2: "\<forall>p. live s' p \<longrightarrow> live s p"
      using s'(4) frame_live [OF s1(3)] by auto
    have p3: "\<forall>w. buf_at s' w = buf_at s w \<or> buf_at s' w = None"
    proof
      fix w
      have "buf_at ?s3 w = buf_at s w \<or> buf_at ?s3 w = None"
        using frame_value_at [OF s1(3)] by simp
      then show "buf_at s' w = buf_at s w \<or> buf_at s' w = None"
        using s'(5) by metis
    qed
    show ?thesis using run s'(2) p1 p2 p3 True by simp
  next
    case False
    have "live s safe" using ring_live [OF Cons.prems(1), of safe] sin by auto
    then obtain sf' where g: "next_of s safe = Some sf'" by (auto simp: live_next_of)
    have r: "ring s h ((kept @ [x]) @ rest)" using Cons.prems(1) by simp
    have "\<exists>s'. q_delete_dup_loop s h (hd (rest @ [h])) sf' x = Some (Inr s') \<and>
      ring s' h ((kept @ [x]) @ dedup ?k (Some (?k x)) rest) \<and>
      (\<forall>p\<in>set ((kept @ [x]) @ dedup ?k (Some (?k x)) rest).
          value_at s' p = value_at s p \<and> buf_at s' (strptr s p) = buf_at s (strptr s p)) \<and>
      (\<forall>p. live s' p \<longrightarrow> live s p) \<and> (\<forall>w. buf_at s' w = buf_at s w \<or> buf_at s' w = None)"
    proof (rule Cons.IH [OF r])
      show "\<forall>p\<in>set ((kept @ [x]) @ rest). elem_ok s p" using Cons.prems(2) by simp
      show "distinct (map (strptr s) ((kept @ [x]) @ rest))" using Cons.prems(3) by simp
      show "x = NULL \<or> x \<in> set (kept @ [x])" by simp
      show "rest \<noteq> [] \<longrightarrow> next_of s (hd rest) = Some sf'"
      proof
        assume "rest \<noteq> []"
        then have e: "safe = hd rest" using sf by simp
        show "next_of s (hd rest) = Some sf'" using g unfolding e .
      qed
      have "x \<noteq> NULL" using ring_live [OF Cons.prems(1), of x] live_not_NULL by auto
      then show "Some (?k x) = (if x = NULL then None else Some (cstr s x))" by simp
    qed
    then obtain s' where s': "q_delete_dup_loop s h (hd (rest @ [h])) sf' x = Some (Inr s')"
      "ring s' h (kept @ x # dedup ?k (Some (?k x)) rest)"
      "\<forall>p\<in>set (kept @ x # dedup ?k (Some (?k x)) rest).
          value_at s' p = value_at s p \<and> buf_at s' (strptr s p) = buf_at s (strptr s p)"
      "\<forall>p. live s' p \<longrightarrow> live s p" "\<forall>w. buf_at s' w = buf_at s w \<or> buf_at s' w = None"
      by auto
    have g': "get_next s safe = Inr sf'" using g by simp
    have run: "q_delete_dup_loop s h (hd ((x # rest) @ [h])) safe cur = Some (Inr s')"
      unfolding s'(1) [symmetric] sf [symmetric]
      by (subst q_delete_dup_loop.simps)
        (simp only: list.sel append_Cons xh Let_def dup False g' if_False if_True refl
          bind_opt_simps case_prod_conv)
    show ?thesis using run s'(2,3,4,5) False by simp
  qed
qed

lemma q_delete_dup_ring:
  assumes "ring s h ps" "\<forall>p\<in>set ps. elem_ok s p" "distinct (map (strptr s) ps)"
  shows "\<exists>s'. q_delete_dup h s = Some (Inr (True, s')) \<and>
    ring s' h (dedup (cstr s) None ps) \<and>
    (\<forall>p\<in>set (dedup (cstr s) None ps).
        value_at s' p = value_at s p \<and> buf_at s' (strptr s p) = buf_at s (strptr s p)) \<and>
    (\<forall>p. live s' p \<longrightarrow> live s p) \<and> (\<forall>w. buf_at s' w = buf_at s w \<or> buf_at s' w = None)"
proof (cases "ps = []")
  case True
  then show ?thesis
    using assms(1) ring_head_not_NULL [OF assms(1)] by (auto simp: q_delete_dup_def)
next
  case False
  have hn: "h \<noteq> NULL" using assms(1) by (rule ring_head_not_NULL)
  have n0: "next_of s h = Some (hd ps)" using ring_head_next [OF assms(1)] False by simp
  have "live s (hd ps)" using ring_live [OF assms(1), of "hd ps"] False by simp
  then obtain sf where sf: "next_of s (hd ps) = Some sf" by (auto simp: live_next_of)
  have "\<exists>s'. q_delete_dup_loop s h (hd (ps @ [h])) sf NULL = Some (Inr s') \<and>
    ring s' h ([] @ dedup (cstr s) None ps) \<and>
    (\<forall>p\<in>set ([] @ dedup (cstr s) None ps).
        value_at s' p = value_at s p \<and> buf_at s' (strptr s p) = buf_at s (strptr s p)) \<and>
    (\<forall>p. live s' p \<longrightarrow> live s p) \<and> (\<forall>w. buf_at s' w = buf_at s w \<or> buf_at s' w = None)"
    by (rule q_delete_dup_loop_ring) (use assms sf in auto)
  then show ?thesis
    using hn assms(1) False n0 sf by (auto simp: q_delete_dup_def)
qed

text \<open>
  Claim C4: on a ring sorted ascending, \<^verbatim>\<open>q_delete_dup\<close> leaves exactly one representative
  of each distinct value, in the original relative order; it returns false for an absent
  ring and true for an empty one. The elements hold NUL-terminated strings, no two of them
  the same buffer. The elements left are a subsequence of the original ones, their strings
  are as before, pairwise distinct, and every string of the original ring is the string of
  one of them.
\<close>

theorem delete_dup_one_per_value:
  assumes "ring s head ps" "\<forall>p\<in>set ps. elem_ok s p" "distinct (map (strptr s) ps)"
    "sorted (map (cstr s) ps)"
  shows "q_delete_dup NULL s = Some (Inr (False, s)) \<and>
         (ps = [] \<longrightarrow> q_delete_dup head s = Some (Inr (True, s))) \<and>
         (\<exists>s' ps'. q_delete_dup head s = Some (Inr (True, s')) \<and> ring s' head ps' \<and>
            subseq ps' ps \<and> map (cstr s') ps' = map (cstr s) ps' \<and>
            distinct (map (cstr s) ps') \<and> set (map (cstr s) ps') = set (map (cstr s) ps))"
proof -
  let ?ps' = "dedup (cstr s) None ps"
  obtain s' where s': "q_delete_dup head s = Some (Inr (True, s'))" "ring s' head ?ps'"
    "\<forall>p\<in>set ?ps'. value_at s' p = value_at s p \<and> buf_at s' (strptr s p) = buf_at s (strptr s p)"
    using q_delete_dup_ring [OF assms(1-3)] by blast
  have "map (cstr s') ?ps' = map (cstr s) ?ps'"
    by (rule map_cong [OF refl]) (use s'(3) elem_data_cong in blast)
  moreover have "subseq ?ps' ps" by (rule subseq_dedup)
  moreover have "distinct (map (cstr s) ?ps')" "set (map (cstr s) ?ps') = set (map (cstr s) ps)"
    using dedup_sorted [OF assms(4)] by simp_all
  moreover have "q_delete_dup NULL s = Some (Inr (False, s))" by (simp add: q_delete_dup_def)
  moreover have "ps = [] \<longrightarrow> q_delete_dup head s = Some (Inr (True, s))"
    using assms(1) ring_head_not_NULL [OF assms(1)] by (auto simp: q_delete_dup_def)
  ultimately show ?thesis using s'(1,2) by blast
qed

theorem delete_dup_one_per_value_witness:
  "q_delete_dup NULL aabccc = Some (Inr (False, aabccc)) \<and>
   (\<exists>s' ps'. q_delete_dup 1 aabccc = Some (Inr (True, s')) \<and> ring s' 1 ps' \<and>
      subseq ps' [2, 3, 4, 5, 6, 7] \<and> map (cstr s') ps' = map (cstr aabccc) ps' \<and>
      distinct (map (cstr aabccc) ps') \<and>
      set (map (cstr aabccc) ps') = {''a'', ''b'', ''c''})"
proof -
  have r: "ring aabccc 1 [2, 3, 4, 5, 6, 7]" "\<forall>p\<in>set [2, 3, 4, 5, 6, 7]. elem_ok aabccc p"
    "distinct (map (strptr aabccc) [2, 3, 4, 5, 6, 7])"
    by (simp_all add: aabccc_def fixture_defs strptr_def)
  have k: "map (cstr aabccc) [2, 3, 4, 5, 6, 7] = [''a'', ''a'', ''b'', ''c'', ''c'', ''c'']"
    by (simp add: aabccc_def fixture_defs)
  have s: "sorted (map (cstr aabccc) [2, 3, 4, 5, 6, 7])"
    unfolding k by (simp add: less_eq_char_def)
  show ?thesis
    using delete_dup_one_per_value [OF r s] unfolding k by auto
qed

section \<open>Insertion\<close>

lemma created_eff [simp]:
  assumes "m1 \<noteq> NULL" "m2 \<noteq> NULL" "str \<noteq> NULL"
  shows "next_of (created m1 m2 copy str b s) = (next_of s)(m1 \<mapsto> NULL)"
    "prev_of (created m1 m2 copy str b s) = (prev_of s)(m1 \<mapsto> NULL)"
    "live (created m1 m2 copy str b s) y = (y = m1 \<or> live s y)"
    "value_at (created m1 m2 copy str b s) y = (if y = m1 then Some m2 else value_at s y)"
    "buf_at (created m1 m2 copy str b s) w =
       (if w = str then Some b else if w = m2 then Some copy else buf_at s w)"
  using assms
  by (auto simp: created_def next_of_def prev_of_def live_def node_at_def value_at_def
      buf_at_def fun_eq_iff)

lemma strlen_eq:
  "buf_at s p = Some b \<Longrightarrow> NUL \<in> set b \<Longrightarrow>
   strlen s p = Inr (length (takeWhile (\<lambda>c. c \<noteq> NUL) b))"
  by (simp add: strlen_def strlen_bytes_def)

lemma nth_takeWhile_NUL:
  "NUL \<in> set b \<Longrightarrow> b ! length (takeWhile (\<lambda>c. c \<noteq> NUL) b) = NUL"
  using nth_length_takeWhile [of "\<lambda>c. c \<noteq> NUL" b] takeWhile_NUL_less [of b] by auto

lemma takeWhile_take_NUL:
  "NUL \<in> set b \<Longrightarrow>
   takeWhile (\<lambda>c. c \<noteq> NUL) (take (Suc (length (takeWhile (\<lambda>c. c \<noteq> NUL) b))) b)
     = takeWhile (\<lambda>c. c \<noteq> NUL) b"
  by (induction b) auto

lemma int_length_small:
  assumes "k < 2 ^ 31"
  shows "sint (word_of_nat k :: 32 word) = int k" "unat (word_of_int (int k) :: 64 word) = k"
proof -
  have "sint (word_of_nat k :: 32 word) = signed_take_bit 31 (int k)"
    by (simp add: signed_of_nat)
  also have "\<dots> = int k"
  proof (rule signed_take_bit_int_eq_self)
    show "- (2 ^ 31) \<le> int k" by simp
    have "int k < int (2 ^ 31)" using assms by (simp only: of_nat_less_iff)
    then show "int k < 2 ^ 31" by simp
  qed
  finally show "sint (word_of_nat k :: 32 word) = int k" .
  have "unat (word_of_nat k :: 64 word) = k mod 2 ^ 64" by (simp add: unat_of_nat)
  moreover have "k < 2 ^ 64" using assms by (rule less_trans) simp
  ultimately show "unat (word_of_int (int k) :: 64 word) = k" by simp
qed

lemma size_t_small:
  assumes "k < 2 ^ 64"
  shows "unat (word_of_int (int k) :: 64 word) = k"
proof -
  have "unat (word_of_nat k :: 64 word) = k mod 2 ^ 64" by (simp add: unat_of_nat)
  then show ?thesis using assms by simp
qed

lemma create_element_eq:
  assumes b: "buf_at s str = Some b" "NUL \<in> set b"
    and m: "fresh_node s m1" "fresh_buf s m2"
    and len: "sint (word_of_nat (length (takeWhile (\<lambda>c. c \<noteq> NUL) b) + 1) :: 32 word) = int (k + 1)"
      "k < length b" "k + 1 < 2 ^ 64"
  shows "create_element str m1 m2 s =
    Inr (m1, created m1 m2 (strncpy_bytes (replicate (k + 1) NUL) b (k + 1)) str (b[k := NUL]) s)"
proof -
  have m1: "m1 \<noteq> NULL" and m2: "m2 \<noteq> NULL" and str: "str \<noteq> NULL"
    using m b(1) by (auto simp: fresh_node_def fresh_buf_def dest: buf_at_not_NULL)
  have ne: "m2 \<noteq> str" using m(2) b(1) by (auto simp: fresh_buf_def buf_at_def split: if_splits)
  let ?s1 = "malloc_element m1 s"
  have 1: "strlen ?s1 str = Inr (length (takeWhile (\<lambda>c. c \<noteq> NUL) b))"
    using b by (intro strlen_eq) (auto simp: malloc_element_def buf_at_def split: if_splits)
  have sz: "unat (word_of_int (int (k + 1)) :: 64 word) = k + 1"
    using len(3) by (rule size_t_small)
  let ?s2 = "malloc_buf m2 (k + 1) ?s1"
  let ?s3 = "?s2\<lparr>elem_value := (elem_value ?s2)(m1 \<mapsto> m2)\<rparr>"
  have 2: "set_value m1 m2 ?s2 = Inr ?s3"
    using m1 by (simp add: set_value_def value_at_def malloc_buf_def malloc_element_def)
  have 3: "get_value ?s3 m1 = Inr m2"
    using m1 by (simp add: get_value_def value_at_def)
  have b3: "buf_at ?s3 m2 = Some (replicate (k + 1) NUL)" "buf_at ?s3 str = Some b"
    using m2 str ne b(1) by (simp_all add: buf_at_def malloc_buf_def malloc_element_def)
  let ?c = "strncpy_bytes (replicate (k + 1) NUL) b (k + 1)"
  let ?s4 = "?s3\<lparr>bufs := (bufs ?s3)(m2 \<mapsto> ?c)\<rparr>"
  have 4: "strncpy m2 str (k + 1) ?s3 = Inr ?s4"
    by (rule strncpy_eq [OF b3 b(2) ne]) simp
  have b4: "buf_at ?s4 str = Some b"
    using str ne b(1) by (simp add: buf_at_def malloc_buf_def malloc_element_def)
  have 5: "store_byte str (int k) NUL ?s4 = Inr (?s4\<lparr>bufs := (bufs ?s4)(str \<mapsto> b[nat (int k) := NUL])\<rparr>)"
    by (rule store_byte_eq [OF b4]) (use len(2) in simp_all)
  have 6: "?s4\<lparr>bufs := (bufs ?s4)(str \<mapsto> b[nat (int k) := NUL])\<rparr> = created m1 m2 ?c str (b[k := NUL]) s"
    using ne by (simp add: created_def malloc_buf_def malloc_element_def fun_upd_twist)
  have k: "int (k + 1) - 1 = int k" by simp
  show ?thesis
    unfolding create_element_def Let_def
    by (simp only: 1 2 3 4 5 6 k len(1) sz m1 m2 bind_res_simps if_False sum.case)
qed

lemma create_element_short:
  assumes b: "buf_at s str = Some b" "NUL \<in> set b"
    and m: "fresh_node s m1" "fresh_buf s m2"
    and len: "length (takeWhile (\<lambda>c. c \<noteq> NUL) b) + 1 < 2 ^ 31"
  shows "create_element str m1 m2 s =
    Inr (m1, created m1 m2 (takeWhile (\<lambda>c. c \<noteq> NUL) b @ [NUL]) str b s)"
proof -
  let ?n = "length (takeWhile (\<lambda>c. c \<noteq> NUL) b)"
  have 1: "sint (word_of_nat (?n + 1) :: 32 word) = int (?n + 1)"
    using len by (rule int_length_small)
  have 2: "?n < length b" using b(2) by (rule takeWhile_NUL_less)
  have 3: "?n + 1 < 2 ^ 64" using len by (rule less_trans) simp
  have 4: "strncpy_bytes (replicate (?n + 1) NUL) b (?n + 1) = takeWhile (\<lambda>c. c \<noteq> NUL) b @ [NUL]"
    using takeWhile_take_NUL [OF b(2)] by (simp add: strncpy_bytes_def)
  have 5: "b[?n := NUL] = b"
    using nth_takeWhile_NUL [OF b(2)] by (simp add: list_update_same_conv 2)
  show ?thesis
    using create_element_eq [OF b m 1 2 3] by (simp only: 4 5)
qed

lemma create_element_no_element:
  "create_element str NULL m2 s = Inr (NULL, s)"
  by (simp add: create_element_def)

lemma create_element_no_buffer:
  assumes b: "buf_at s str = Some b" "NUL \<in> set b" and m: "fresh_node s m1"
  shows "create_element str m1 NULL s = Inr (NULL, s)"
proof -
  have m1: "m1 \<noteq> NULL" using m by (simp add: fresh_node_def)
  let ?s1 = "malloc_element m1 s"
  have 1: "strlen ?s1 str = Inr (length (takeWhile (\<lambda>c. c \<noteq> NUL) b))"
    using b by (intro strlen_eq) (auto simp: malloc_element_def buf_at_def split: if_splits)
  have 2: "set_value m1 NULL ?s1 = Inr ?s1"
    using m1 by (simp add: set_value_def value_at_def malloc_element_def)
  have 3: "get_value ?s1 m1 = Inr NULL"
    using m1 by (simp add: get_value_def value_at_def malloc_element_def)
  have 4: "free_element m1 ?s1 = Inr s"
    using m m1 by (simp add: free_element_def malloc_element_def fresh_node_def fun_upd_idem)
  show ?thesis
    unfolding create_element_def Let_def
    by (simp only: 1 2 3 4 m1 bind_res_simps if_False if_True sum.case simp_thms)
qed

lemma ring_created:
  assumes "ring s h ps" "fresh_node s m1" "m2 \<noteq> NULL" "str \<noteq> NULL"
  shows "ring (created m1 m2 c str b s) h ps" "live (created m1 m2 c str b s) m1"
    "m1 \<notin> set (h # ps)"
proof -
  have m1: "m1 \<noteq> NULL" using assms(2) by (simp add: fresh_node_def)
  have "\<not> live s m1" using assms(2) by (simp add: fresh_node_def live_def node_at_def)
  then show n: "m1 \<notin> set (h # ps)" using ring_live [OF assms(1)] by blast
  show "live (created m1 m2 c str b s) m1" using m1 assms(3,4) by simp
  show "ring (created m1 m2 c str b s) h ps"
    using assms(1) unfolding ring_def
    by (elim cyc_cong) (use n m1 assms(3,4) in auto)
qed

lemma q_insert_head_eq:
  assumes "ring s h ps" "fresh_node s m1" "m2 \<noteq> NULL" "str \<noteq> NULL"
    "create_element str m1 m2 s = Inr (m1, created m1 m2 c str b s)"
  shows "\<exists>s'. q_insert_head h str m1 m2 s = Inr (True, s') \<and> ring s' h (m1 # ps) \<and>
    frame (insert m1 (set (h # ps))) (created m1 m2 c str b s) s'"
proof -
  have m1: "m1 \<noteq> NULL" using assms(2) by (simp add: fresh_node_def)
  have h: "h \<noteq> NULL" using assms(1) by (rule ring_head_not_NULL)
  note c = ring_created(1,2) [where c = c and b = b, OF assms(1-4)] ring_created(3) [OF assms(1-4)]
  obtain s' where "list_add m1 h (created m1 m2 c str b s) = Inr s'" "ring s' h (m1 # ps)"
    "frame (insert m1 (set (h # ps))) (created m1 m2 c str b s) s'"
    using ring_add [OF c] by blast
  then show ?thesis using m1 h assms(5) by (simp add: q_insert_head_def)
qed

lemma q_insert_tail_eq:
  assumes "ring s h ps" "fresh_node s m1" "m2 \<noteq> NULL" "str \<noteq> NULL"
    "create_element str m1 m2 s = Inr (m1, created m1 m2 c str b s)"
  shows "\<exists>s'. q_insert_tail h str m1 m2 s = Inr (True, s') \<and> ring s' h (ps @ [m1]) \<and>
    frame (insert m1 (set (h # ps))) (created m1 m2 c str b s) s'"
proof -
  have m1: "m1 \<noteq> NULL" using assms(2) by (simp add: fresh_node_def)
  have h: "h \<noteq> NULL" using assms(1) by (rule ring_head_not_NULL)
  note c = ring_created(1,2) [where c = c and b = b, OF assms(1-4)] ring_created(3) [OF assms(1-4)]
  obtain s' where "list_add_tail m1 h (created m1 m2 c str b s) = Inr s'" "ring s' h (ps @ [m1])"
    "frame (insert m1 (set (h # ps))) (created m1 m2 c str b s) s'"
    using ring_add_tail [OF c] by blast
  then show ?thesis using m1 h assms(5) by (simp add: q_insert_tail_def)
qed

lemma word32_wraps: "(word_of_nat (2 ^ 32 + 2) :: 32 word) = 2"
  by simp

lemma long_string_NUL: "NUL \<in> set long_string"
  by (simp add: long_string_def)

lemma long_string_strlen:
  "length (takeWhile (\<lambda>c. c \<noteq> NUL) long_string) = 2 ^ 32 + 1"
proof -
  have "takeWhile (\<lambda>c. c \<noteq> NUL) (replicate n (CHR ''a'') @ [NUL]) = replicate n (CHR ''a'')" for n
    by (induction n) auto
  then show ?thesis unfolding long_string_def by simp
qed

lemma long_string_copy:
  "strncpy_bytes (replicate (1 + 1) NUL) long_string (1 + 1) = ''aa''"
  by (simp add: strncpy_bytes_def long_string_def)

lemma long_string_cut:
  "long_string[1 := NUL] = CHR ''a'' # NUL # replicate (2 ^ 32 - 1) (CHR ''a'') @ [NUL]"
  "takeWhile (\<lambda>c. c \<noteq> NUL) (long_string[1 := NUL]) = ''a''"
  "long_string[1 := NUL] \<noteq> long_string"
  by (simp_all add: long_string_def)

lemma long_input_facts:
  "buf_at long_input 9 = Some long_string" "ring long_input 1 []"
  "fresh_node long_input 2" "fresh_buf long_input 12"
  by (simp_all add: long_input_def fixture_defs fresh_node_def fresh_buf_def)

lemma create_element_long:
  "create_element 9 2 12 long_input = Inr (2, created 2 12 ''aa'' 9 (long_string[1 := NUL]) long_input)"
proof -
  have 1: "sint (word_of_nat (length (takeWhile (\<lambda>c. c \<noteq> NUL) long_string) + 1) :: 32 word) = int (1 + 1)"
    by (simp add: long_string_strlen)
  have 2: "1 < length long_string" by (simp add: long_string_def)
  have 3: "(1::nat) + 1 < 2 ^ 64" by simp
  show ?thesis
    using create_element_eq [OF long_input_facts(1) long_string_NUL long_input_facts(3,4) 1 2 3]
    by (simp only: long_string_copy)
qed

lemma strlen_long_input: "strlen long_input 9 = Inr (2 ^ 32 + 1)"
  using strlen_eq [OF long_input_facts(1) long_string_NUL] by (simp only: long_string_strlen)

lemma long_insert_effect:
  assumes "frame A (created 2 12 ''aa'' 9 (long_string[1 := NUL]) long_input) s'"
  shows "buf_at s' 9 = Some (long_string[1 := NUL]) \<and> buf_at s' 9 \<noteq> buf_at long_input 9 \<and>
    strlen s' 9 = Inr 1 \<and> value_at s' 2 = Some 12 \<and> buf_at s' 12 = Some ''aa''"
proof -
  have 1: "buf_at s' 9 = Some (long_string[1 := NUL])" "value_at s' 2 = Some 12"
    "buf_at s' 12 = Some ''aa''"
    using frame_value_at [OF assms] by simp_all
  have "NUL \<in> set (long_string[1 := NUL])" by (simp add: long_string_def)
  from strlen_eq [OF 1(1) this] have 2: "strlen s' 9 = Inr 1"
    by (simp only: long_string_cut(2)) simp
  have 3: "buf_at s' 9 \<noteq> buf_at long_input 9"
    using long_string_cut(3) by (simp only: 1(1) long_input_facts(1) option.inject) simp
  show ?thesis using 1 2 3 by blast
qed

text \<open>
  Claim C10: a successful insertion leaves the caller's string as it was, because the store
  \<^verbatim>\<open>s[length - 1] = '\0'\<close> of \<^verbatim>\<open>create_element\<close> hits the terminator. The code does not
  do this for a string of \<open>2 ^ 32 + 1\<close> characters: \<^verbatim>\<open>int length\<close> receives
  \<open>2 ^ 32 + 2\<close> narrowed to 2, so that both \<^verbatim>\<open>q_insert_head\<close> and \<^verbatim>\<open>q_insert_tail\<close> succeed,
  the element owns a buffer of the two bytes \<^verbatim>\<open>aa\<close> with no terminator, and the store
  \<^verbatim>\<open>s[1] = '\0'\<close> cuts the caller's string down to one character.
\<close>

theorem insert_truncates_long_string:
  "strlen long_input 9 = Inr (2 ^ 32 + 1) \<and>
   (\<exists>s'. q_insert_head 1 9 2 12 long_input = Inr (True, s') \<and> ring s' 1 [2] \<and>
      buf_at s' 9 = Some (long_string[1 := NUL]) \<and> buf_at s' 9 \<noteq> buf_at long_input 9 \<and>
      strlen s' 9 = Inr 1 \<and> value_at s' 2 = Some 12 \<and> buf_at s' 12 = Some ''aa'') \<and>
   (\<exists>s'. q_insert_tail 1 9 2 12 long_input = Inr (True, s') \<and> ring s' 1 [2] \<and>
      buf_at s' 9 = Some (long_string[1 := NUL]) \<and> buf_at s' 9 \<noteq> buf_at long_input 9 \<and>
      strlen s' 9 = Inr 1 \<and> value_at s' 2 = Some 12 \<and> buf_at s' 12 = Some ''aa'')"
proof (intro conjI)
  show "strlen long_input 9 = Inr (2 ^ 32 + 1)" by (rule strlen_long_input)
  obtain s' where 1: "q_insert_head 1 9 2 12 long_input = Inr (True, s')" "ring s' 1 [2]"
    "frame (insert 2 (set [1])) (created 2 12 ''aa'' 9 (long_string[1 := NUL]) long_input) s'"
    using q_insert_head_eq [OF long_input_facts(2,3) _ _ create_element_long] by auto
  show "\<exists>s'. q_insert_head 1 9 2 12 long_input = Inr (True, s') \<and> ring s' 1 [2] \<and>
      buf_at s' 9 = Some (long_string[1 := NUL]) \<and> buf_at s' 9 \<noteq> buf_at long_input 9 \<and>
      strlen s' 9 = Inr 1 \<and> value_at s' 2 = Some 12 \<and> buf_at s' 12 = Some ''aa''"
    using 1(1,2) long_insert_effect [OF 1(3)] by blast
  obtain s' where 2: "q_insert_tail 1 9 2 12 long_input = Inr (True, s')" "ring s' 1 [2]"
    "frame (insert 2 (set [1])) (created 2 12 ''aa'' 9 (long_string[1 := NUL]) long_input) s'"
    using q_insert_tail_eq [OF long_input_facts(2,3) _ _ create_element_long] by auto
  show "\<exists>s'. q_insert_tail 1 9 2 12 long_input = Inr (True, s') \<and> ring s' 1 [2] \<and>
      buf_at s' 9 = Some (long_string[1 := NUL]) \<and> buf_at s' 9 \<noteq> buf_at long_input 9 \<and>
      strlen s' 9 = Inr 1 \<and> value_at s' 2 = Some 12 \<and> buf_at s' 12 = Some ''aa''"
    using 2(1,2) long_insert_effect [OF 2(3)] by blast
qed

section \<open>Ring consistency across the operations\<close>

lemma ring_consistent:
  assumes "ring s h ps"
  shows "bind_res (get_next s h) (get_prev s) = Inr h"
    "bind_res (get_prev s h) (get_next s) = Inr h"
    "get_next s h = Inr h \<longleftrightarrow> ps = []"
proof -
  have n: "next_of s h = Some (hd (ps @ [h]))" using assms by (rule ring_head_next)
  have p: "prev_of s h = Some (last (h # ps))" using assms by (rule ring_head_prev)
  have "prev_of s (hd (ps @ [h])) = Some h"
  proof (cases ps)
    case Nil
    then show ?thesis using p by simp
  next
    case (Cons x xs)
    then show ?thesis using ring_prev [of s h "[]" x xs] assms by simp
  qed
  then show "bind_res (get_next s h) (get_prev s) = Inr h" using n by simp
  have "next_of s (last (h # ps)) = Some h"
  proof (cases ps rule: rev_cases)
    case Nil
    then show ?thesis using n by simp
  next
    case (snoc xs x)
    then show ?thesis using ring_next [of s h xs x "[]"] assms by simp
  qed
  then show "bind_res (get_prev s h) (get_next s) = Inr h" using p by simp
  show "get_next s h = Inr h \<longleftrightarrow> ps = []"
    using n ring_distinct [OF assms] by (cases ps) auto
qed

lemma narrowed_length:
  assumes "0 < sint (word_of_nat m :: 32 word)"
  obtains k where "sint (word_of_nat m :: 32 word) = int (k + 1)" "k < m" "k + 1 < 2 ^ 64"
proof -
  define l where "l = sint (word_of_nat m :: 32 word)"
  have l: "l = signed_take_bit 31 (int m)" by (simp add: l_def signed_of_nat)
  have pos: "0 < l" using assms by (simp add: l_def)
  have le: "l \<le> int m" unfolding l by (simp add: signed_take_bit_int_less_eq_self_iff)
  have lt: "l < 2 ^ 31" unfolding l by (rule signed_take_bit_int_less_exp)
  define k where "k = nat l - 1"
  have 1: "l = int (k + 1)" using pos by (simp add: k_def)
  have 2: "k < m" using le pos by (simp add: k_def)
  have "k + 1 < 2 ^ 31" using lt pos by (simp add: k_def nat_less_iff)
  then have 3: "k + 1 < 2 ^ 64" by (rule less_trans) simp
  show thesis using that [of k] 1 2 3 by (simp add: l_def)
qed

lemma q_new_hello: "q_new 1 hello_store = Inr (1, hello_queue)"
  by (simp add: q_new_def malloc_list_head_def INIT_LIST_HEAD_def set_next_def set_prev_def
      node_at_def hello_store_def hello_queue_def queue_state_def)

lemma q_new_ring:
  assumes "head \<noteq> NULL"
  shows "\<exists>s. q_new head s0 = Inr (head, s) \<and> ring s head []"
proof -
  have "live (malloc_list_head head s0) head"
    using assms by (simp add: live_def node_at_def malloc_list_head_def)
  then obtain s where "INIT_LIST_HEAD head (malloc_list_head head s0) = Inr s" "ring s head []"
    using ring_init by blast
  then show ?thesis using assms by (simp add: q_new_def)
qed

lemma create_element_cases:
  assumes "insertable s str m1 m2"
  shows "create_element str m1 m2 s = Inr (NULL, s) \<or>
    (fresh_node s m1 \<and> m2 \<noteq> NULL \<and> str \<noteq> NULL \<and>
     (\<exists>c b. create_element str m1 m2 s = Inr (m1, created m1 m2 c str b s)))"
proof (cases "m1 = NULL")
  case True
  then show ?thesis by (simp add: create_element_no_element)
next
  case False
  then obtain b where m1: "fresh_node s m1" and b: "buf_at s str = Some b" "NUL \<in> set b"
    and m2: "m2 = NULL \<or> (fresh_buf s m2 \<and>
      0 < sint (word_of_nat (length (takeWhile (\<lambda>c. c \<noteq> NUL) b) + 1) :: 32 word))"
    using assms by (auto simp: insertable_def split: option.splits)
  show ?thesis
  proof (cases "m2 = NULL")
    case True
    then show ?thesis using create_element_no_buffer [OF b m1] by simp
  next
    case nn: False
    then have f2: "fresh_buf s m2"
      and pos: "0 < sint (word_of_nat (length (takeWhile (\<lambda>c. c \<noteq> NUL) b) + 1) :: 32 word)"
      using m2 by simp_all
    obtain k where k: "sint (word_of_nat (length (takeWhile (\<lambda>c. c \<noteq> NUL) b) + 1) :: 32 word)
        = int (k + 1)" "k < length (takeWhile (\<lambda>c. c \<noteq> NUL) b) + 1" "k + 1 < 2 ^ 64"
      using pos by (rule narrowed_length)
    have "k < length b" using k(2) takeWhile_NUL_less [OF b(2)] by simp
    from create_element_eq [OF b m1 f2 k(1) this k(3)] show ?thesis
      using m1 nn buf_at_not_NULL [OF b(1)] by blast
  qed
qed

lemma insert_head_ring:
  assumes "ring s h ps" "insertable s str m1 m2"
  shows "\<exists>ok s' ps'. q_insert_head h str m1 m2 s = Inr (ok, s') \<and> ring s' h ps'"
proof -
  have hn: "h \<noteq> NULL" using assms(1) by (rule ring_head_not_NULL)
  from create_element_cases [OF assms(2)] show ?thesis
  proof
    assume "create_element str m1 m2 s = Inr (NULL, s)"
    then have "q_insert_head h str m1 m2 s = Inr (False, s)" using hn by (simp add: q_insert_head_def)
    then show ?thesis using assms(1) by blast
  next
    assume "fresh_node s m1 \<and> m2 \<noteq> NULL \<and> str \<noteq> NULL \<and>
      (\<exists>c b. create_element str m1 m2 s = Inr (m1, created m1 m2 c str b s))"
    then obtain c b where 1: "fresh_node s m1" "m2 \<noteq> NULL" "str \<noteq> NULL"
      "create_element str m1 m2 s = Inr (m1, created m1 m2 c str b s)" by blast
    from q_insert_head_eq [OF assms(1) 1] show ?thesis by blast
  qed
qed

lemma insert_tail_ring:
  assumes "ring s h ps" "insertable s str m1 m2"
  shows "\<exists>ok s' ps'. q_insert_tail h str m1 m2 s = Inr (ok, s') \<and> ring s' h ps'"
proof -
  have hn: "h \<noteq> NULL" using assms(1) by (rule ring_head_not_NULL)
  from create_element_cases [OF assms(2)] show ?thesis
  proof
    assume "create_element str m1 m2 s = Inr (NULL, s)"
    then have "q_insert_tail h str m1 m2 s = Inr (False, s)" using hn by (simp add: q_insert_tail_def)
    then show ?thesis using assms(1) by blast
  next
    assume "fresh_node s m1 \<and> m2 \<noteq> NULL \<and> str \<noteq> NULL \<and>
      (\<exists>c b. create_element str m1 m2 s = Inr (m1, created m1 m2 c str b s))"
    then obtain c b where 1: "fresh_node s m1" "m2 \<noteq> NULL" "str \<noteq> NULL"
      "create_element str m1 m2 s = Inr (m1, created m1 m2 c str b s)" by blast
    from q_insert_tail_eq [OF assms(1) 1] show ?thesis by blast
  qed
qed

lemma remove_head_ring:
  assumes "ring s h ps" "ps = [] \<or> removable s (hd ps) sp bufsize"
  shows "\<exists>elem s'. q_remove_head h sp bufsize s = Inr (elem, s') \<and> ring s' h (tl ps)"
proof (cases ps)
  case Nil
  have r: "ring s h []" using assms(1) Nil by simp
  have "q_remove_head h sp bufsize s = Inr (NULL, s)"
    using r ring_head_not_NULL [OF r] by (simp add: q_remove_head_def)
  then show ?thesis using r Nil by auto
next
  case (Cons x xs)
  have r: "ring s h (x # xs)" using assms(1) Cons by simp
  show ?thesis
  proof (cases "sp = NULL")
    case True
    then show ?thesis using q_remove_head_no_sp [OF r, of bufsize] Cons by auto
  next
    case False
    then obtain d where d: "buf_at s sp = Some d" "bufsize \<noteq> 0" "unat bufsize \<le> length d"
      "elem_ok s x" "strptr s x \<noteq> sp"
      using assms(2) Cons by (auto simp: removable_def split: option.splits)
    obtain v b where v: "value_at s x = Some v" "buf_at s v = Some b" "NUL \<in> set b"
      using d(4) by (auto simp: elem_ok_def)
    have ne: "v \<noteq> sp" using d(5) v(1) by (simp add: strptr_def)
    from q_remove_head_copy [OF r d(1) v ne d(2,3)] show ?thesis using Cons by auto
  qed
qed

lemma remove_tail_ring:
  assumes "ring s h ps" "ps = [] \<or> removable s (last ps) sp bufsize"
  shows "\<exists>elem s'. q_remove_tail h sp bufsize s = Inr (elem, s') \<and> ring s' h (butlast ps)"
proof (cases ps rule: rev_cases)
  case Nil
  have r: "ring s h []" using assms(1) Nil by simp
  have "q_remove_tail h sp bufsize s = Inr (NULL, s)"
    using r ring_head_not_NULL [OF r] by (simp add: q_remove_tail_def)
  then show ?thesis using r Nil by auto
next
  case (snoc xs x)
  have r: "ring s h (xs @ [x])" using assms(1) snoc by simp
  show ?thesis
  proof (cases "sp = NULL")
    case True
    then show ?thesis using q_remove_tail_no_sp [OF r, of bufsize] snoc by auto
  next
    case False
    then obtain d where d: "buf_at s sp = Some d" "bufsize \<noteq> 0" "unat bufsize \<le> length d"
      "elem_ok s x" "strptr s x \<noteq> sp"
      using assms(2) snoc by (auto simp: removable_def split: option.splits)
    obtain v b where v: "value_at s x = Some v" "buf_at s v = Some b" "NUL \<in> set b"
      using d(4) by (auto simp: elem_ok_def)
    have ne: "v \<noteq> sp" using d(5) v(1) by (simp add: strptr_def)
    from q_remove_tail_copy [OF r d(1) v ne d(2,3)] show ?thesis using snoc by auto
  qed
qed

lemma delete_mid_ring:
  assumes "ring s h ps" "ps = [] \<or> elem_ok s (ps ! ((length ps - 1) div 2))"
  shows "\<exists>ok s' ps'. q_delete_mid h s = Some (Inr (ok, s')) \<and> ring s' h ps'"
proof (cases "ps = []")
  case True
  have r: "ring s h []" using assms True by simp
  have "q_delete_mid h s = Some (Inr (False, s))"
    using r ring_head_not_NULL [OF r] by (simp add: q_delete_mid_def)
  then show ?thesis using r by blast
next
  case False
  note r = assms(1)
  define k where "k = (length ps - 1) div 2"
  have k: "k < length ps" using False by (cases ps) (auto simp: k_def)
  define x where "x = ps ! k"
  define xs where "xs = take k ps"
  define ys where "ys = drop (Suc k) ps"
  have ps: "ps = xs @ x # ys" unfolding x_def xs_def ys_def using k by (rule id_take_nth_drop)
  have hn: "h \<noteq> NULL" using r by (rule ring_head_not_NULL)
  have mid: "q_mid h s = Some (Inr x)" using q_mid_ring [OF r False] by (simp add: x_def k_def)
  have r': "ring s h (xs @ x # ys)" using r ps by simp
  obtain s1 where 1: "list_del x s = Inr s1" "ring s1 h (xs @ ys)" "frame (set (h # xs @ ys)) s s1"
    using ring_del [OF r'] by blast
  have "elem_ok s x" using assms(2) False by (simp add: x_def k_def)
  then obtain v b where v: "value_at s x = Some v" "buf_at s v = Some b"
    by (auto simp: elem_ok_def)
  have d1: "value_at s1 = value_at s" "buf_at s1 = buf_at s" using frame_value_at [OF 1(3)] by simp_all
  have lx: "live s1 x" using ring_live [OF r, of x] frame_live [OF 1(3)] ps by simp
  have rel: "q_release_element x s1 = Inr (released x v s1)"
    using v lx by (intro q_release_element_eq) (simp_all add: d1)
  have nx: "x \<notin> set (h # xs @ ys)" using ring_distinct [OF r] ps by auto
  have r2: "ring (released x v s1) h (xs @ ys)" using 1(2) nx by (rule ring_released)
  have "q_delete_mid h s = Some (Inr (True, released x v s1))"
    using hn r False mid 1(1) rel by (simp add: q_delete_mid_def)
  then show ?thesis using r2 by blast
qed

lemma run_op_ring:
  assumes "ring s h ps" "allowed s ps op"
  shows "\<exists>s' ps'. run_op op h s = Some (Inr s') \<and> ring s' h ps'"
proof (cases op)
  case (Insert_head str m1 m2)
  then show ?thesis using insert_head_ring [OF assms(1), of str m1 m2] assms(2) by auto
next
  case (Insert_tail str m1 m2)
  then show ?thesis using insert_tail_ring [OF assms(1), of str m1 m2] assms(2) by auto
next
  case (Remove_head sp bufsize)
  then show ?thesis using remove_head_ring [OF assms(1), of sp bufsize] assms(2) by auto
next
  case (Remove_tail sp bufsize)
  then show ?thesis using remove_tail_ring [OF assms(1), of sp bufsize] assms(2) by auto
next
  case Delete_mid
  then show ?thesis using delete_mid_ring [OF assms(1)] assms(2) by auto
next
  case Delete_dup
  then show ?thesis using q_delete_dup_ring [OF assms(1)] assms(2) by auto
next
  case Swap
  then have v: "\<forall>p\<in>set ps. value_at s p \<noteq> None" using assms(2) by simp
  obtain s' where "q_swap h s = Some (Inr s')" "nodes s' = nodes s"
    using q_swap_ring [OF assms(1) v] by blast
  then show ?thesis using ring_same_nodes [OF assms(1)] Swap by auto
next
  case Reverse
  then show ?thesis using q_reverse_ring [OF assms(1)] by auto
next
  case (Sort stack)
  then have "\<forall>p\<in>set ps. elem_ok s p" "\<forall>p. live s p \<longrightarrow> p < stack" using assms(2) by simp_all
  from q_sort_ring [OF assms(1) this] show ?thesis using Sort by auto
qed

lemma create_hello:
  "create_element 9 2 12 hello_queue = Inr (2, created 2 12 (''hello'' @ [NUL]) 9 (''hello'' @ [NUL]) hello_queue)"
proof -
  have b: "buf_at hello_queue 9 = Some (''hello'' @ [NUL])" "NUL \<in> set (''hello'' @ [NUL])"
    "length (takeWhile (\<lambda>c. c \<noteq> NUL) (''hello'' @ [NUL])) + 1 < 2 ^ 31"
    by (simp_all add: hello_queue_def buf_at_def)
  have f: "fresh_node hello_queue 2" "fresh_buf hello_queue 12"
    by (simp_all add: hello_queue_def fixture_defs fresh_node_def fresh_buf_def)
  show ?thesis using create_element_short [OF b(1,2) f b(3)] by simp
qed

lemma insert_tail_hello: "q_insert_tail 1 9 2 12 hello_queue = Inr (True, hello_inserted)"
  unfolding q_insert_tail_def create_hello
  by (simp add: list_add_tail_def created_def get_prev_def set_next_def set_prev_def node_at_def
      hello_queue_def hello_inserted_def queue_state_def fun_upd_twist)

lemma links_unique:
  "links N P (x # ps @ [h]) \<Longrightarrow> links N P (x # qs @ [h]) \<Longrightarrow> h \<notin> set ps \<Longrightarrow> h \<notin> set qs \<Longrightarrow>
   ps = qs"
proof (induction ps arbitrary: x qs)
  case Nil
  then show ?case by (cases qs) auto
next
  case (Cons p ps)
  then show ?case by (cases qs) auto
qed

lemma ring_unique: "ring s h ps \<Longrightarrow> ring s h qs \<Longrightarrow> ps = qs"
  using links_unique [of "next_of s" "prev_of s" h ps h qs]
  by (auto simp: ring_def cyc_def)

lemma reachable_ring: "reachable head s \<Longrightarrow> \<exists>ps. ring s head ps"
proof (induction rule: reachable.induct)
  case (new s0 s)
  then show ?case using q_new_ring [of head s0] by auto
next
  case (step s ps op s')
  obtain s2 ps2 where "run_op op head s = Some (Inr s2)" "ring s2 head ps2"
    using run_op_ring [OF step.hyps(2,3)] by blast
  then show ?case using step.hyps(4) by auto
qed

lemma hello_inserted_facts:
  "ring hello_inserted 1 [2]" "elem_ok hello_inserted 2" "strptr hello_inserted 2 = 12"
  "buf_at hello_inserted 9 = Some (''hello'' @ [NUL])" "value_at hello_inserted 2 = Some 12"
  "buf_at hello_inserted 12 = Some (''hello'' @ [NUL])"
  by (simp_all add: hello_inserted_def fixture_defs strptr_def)

lemma reachable_hello: "reachable 1 hello_queue" "reachable 1 hello_inserted"
proof -
  show a: "reachable 1 hello_queue" by (rule reachable.new [OF _ q_new_hello]) simp
  have r: "ring hello_queue 1 []" by (simp add: hello_queue_def fixture_defs)
  have al: "allowed hello_queue [] (Insert_tail 9 2 12)"
    by (simp add: insertable_def fresh_node_def fresh_buf_def hello_queue_def fixture_defs)
  have run: "run_op (Insert_tail 9 2 12) 1 hello_queue = Some (Inr hello_inserted)"
    using insert_tail_hello by simp
  show "reachable 1 hello_inserted" by (rule reachable.step [OF a r al run])
qed

lemma long_insertion_allowed:
  "allowed long_input [] (Insert_head 9 2 12)" "allowed long_input [] (Insert_tail 9 2 12)"
  using long_input_facts long_string_NUL
  by (simp_all add: insertable_def long_string_strlen)

text \<open>
  Claim C8: every queue operation preserves ring consistency, in every reachable state.
  As it stands this fails: the operations have preconditions. The queue at address 1 made
  by \<^verbatim>\<open>q_new\<close>, with the string \<^verbatim>\<open>hello\<close> inserted at its tail, is a reachable state with a
  consistent ring; \<^verbatim>\<open>q_remove_head\<close> with an output buffer and \<^verbatim>\<open>bufsize = 0\<close> does not end
  there in a state with a consistent ring, or in any state: its store \<^verbatim>\<open>sp[bufsize - 1]\<close>
  is out of bounds.
\<close>

theorem ring_consistency_counterexample:
  "q_new 1 hello_store = Inr (1, hello_queue) \<and>
   run_op (Insert_tail 9 2 12) 1 hello_queue = Some (Inr hello_inserted) \<and>
   reachable 1 hello_inserted \<and> ring hello_inserted 1 [2] \<and>
   buf_at hello_inserted 9 = Some (''hello'' @ [NUL]) \<and>
   run_op (Remove_head 9 0) 1 hello_inserted = Some (Inl Out_of_bounds) \<and>
   \<not> (\<exists>s'. run_op (Remove_head 9 0) 1 hello_inserted = Some (Inr s') \<and>
          bind_res (get_next s' 1) (get_prev s') = Inr 1 \<and>
          bind_res (get_prev s' 1) (get_next s') = Inr 1)"
proof -
  have "length (''hello'' @ [NUL]) < 2 ^ 64" by simp
  from q_remove_head_zero [OF hello_inserted_facts(1,4,5,6) _ this]
  have "q_remove_head 1 9 0 hello_inserted = Inl Out_of_bounds" by simp
  then have "run_op (Remove_head 9 0) 1 hello_inserted = Some (Inl Out_of_bounds)" by simp
  then show ?thesis
    using q_new_hello insert_tail_hello reachable_hello(2) hello_inserted_facts(1,4) by simp
qed

text \<open>
  Claim C8, amended: every queue operation that is run where it is allowed preserves ring
  consistency. In every state that a queue reaches from \<^verbatim>\<open>q_new\<close> through such operations,
  the nodes form a ring, \<^verbatim>\<open>head->next->prev\<close> and \<^verbatim>\<open>head->prev->next\<close> are \<^verbatim>\<open>head\<close>, and
  \<^verbatim>\<open>head->next\<close> is \<^verbatim>\<open>head\<close> exactly when the queue holds no element; and each operation
  that is allowed there (insertion and removal at either end, \<^verbatim>\<open>q_delete_mid\<close>,
  \<^verbatim>\<open>q_delete_dup\<close>, \<^verbatim>\<open>q_swap\<close>, \<^verbatim>\<open>q_reverse\<close>, \<^verbatim>\<open>q_sort\<close> with its \<^verbatim>\<open>merge\<close>) returns, in a
  state of that kind again. \<^verbatim>\<open>q_size\<close> performs no store, and \<^verbatim>\<open>q_free\<close> ends the life of
  the queue.
\<close>

theorem ring_consistency_preserved:
  assumes "reachable head s"
  shows "\<exists>ps. ring s head ps \<and>
    bind_res (get_next s head) (get_prev s) = Inr head \<and>
    bind_res (get_prev s head) (get_next s) = Inr head \<and>
    (get_next s head = Inr head \<longleftrightarrow> ps = []) \<and>
    (\<forall>op. allowed s ps op \<longrightarrow>
       (\<exists>s'. run_op op head s = Some (Inr s') \<and> reachable head s' \<and>
          bind_res (get_next s' head) (get_prev s') = Inr head \<and>
          bind_res (get_prev s' head) (get_next s') = Inr head))"
proof -
  obtain ps where r: "ring s head ps" using reachable_ring [OF assms] by blast
  have "\<exists>s'. run_op op head s = Some (Inr s') \<and> reachable head s' \<and>
          bind_res (get_next s' head) (get_prev s') = Inr head \<and>
          bind_res (get_prev s' head) (get_next s') = Inr head"
    if al: "allowed s ps op" for op
  proof -
    obtain s' ps' where 1: "run_op op head s = Some (Inr s')" "ring s' head ps'"
      using run_op_ring [OF r al] by blast
    have "reachable head s'" by (rule reachable.step [OF assms r al 1(1)])
    then show ?thesis using 1(1) ring_consistent(1,2) [OF 1(2)] by blast
  qed
  then show ?thesis using r ring_consistent [OF r] by blast
qed

theorem ring_consistency_preserved_witness:
  "reachable 1 hello_inserted \<and> ring hello_inserted 1 [2] \<and>
   bind_res (get_next hello_inserted 1) (get_prev hello_inserted) = Inr 1 \<and>
   bind_res (get_prev hello_inserted 1) (get_next hello_inserted) = Inr 1 \<and>
   get_next hello_inserted 1 \<noteq> Inr 1 \<and>
   allowed hello_inserted [2] (Remove_head 9 3) \<and>
   (\<exists>s'. run_op (Remove_head 9 3) 1 hello_inserted = Some (Inr s') \<and> reachable 1 s' \<and>
      bind_res (get_next s' 1) (get_prev s') = Inr 1 \<and>
      bind_res (get_prev s' 1) (get_next s') = Inr 1) \<and>
   allowed hello_inserted [2] (Sort 50) \<and>
   (\<exists>s'. run_op (Sort 50) 1 hello_inserted = Some (Inr s') \<and> reachable 1 s' \<and>
      bind_res (get_next s' 1) (get_prev s') = Inr 1 \<and>
      bind_res (get_prev s' 1) (get_next s') = Inr 1)"
proof -
  note f = hello_inserted_facts
  have a1: "allowed hello_inserted [2] (Remove_head 9 3)"
    using f(2,3,4) by (simp add: removable_def)
  have "\<forall>p. live hello_inserted p \<longrightarrow> p < 50"
    by (auto simp: hello_inserted_def queue_state_def live_def node_at_def split: if_splits)
  then have a2: "allowed hello_inserted [2] (Sort 50)" using f(2) by simp
  obtain ps where ps: "ring hello_inserted 1 ps"
    "bind_res (get_next hello_inserted 1) (get_prev hello_inserted) = Inr 1"
    "bind_res (get_prev hello_inserted 1) (get_next hello_inserted) = Inr 1"
    "get_next hello_inserted 1 = Inr 1 \<longleftrightarrow> ps = []"
    "\<forall>op. allowed hello_inserted ps op \<longrightarrow>
       (\<exists>s'. run_op op 1 hello_inserted = Some (Inr s') \<and> reachable 1 s' \<and>
          bind_res (get_next s' 1) (get_prev s') = Inr 1 \<and>
          bind_res (get_prev s' 1) (get_next s') = Inr 1)"
    using ring_consistency_preserved [OF reachable_hello(2)] by blast
  have eq: "ps = [2]" using ps(1) f(1) by (rule ring_unique)
  have n: "get_next hello_inserted 1 \<noteq> Inr 1" using ps(4) eq by simp
  have o1: "\<exists>s'. run_op (Remove_head 9 3) 1 hello_inserted = Some (Inr s') \<and> reachable 1 s' \<and>
      bind_res (get_next s' 1) (get_prev s') = Inr 1 \<and>
      bind_res (get_prev s' 1) (get_next s') = Inr 1"
    using ps(5) a1 eq by blast
  have o2: "\<exists>s'. run_op (Sort 50) 1 hello_inserted = Some (Inr s') \<and> reachable 1 s' \<and>
      bind_res (get_next s' 1) (get_prev s') = Inr 1 \<and>
      bind_res (get_prev s' 1) (get_next s') = Inr 1"
    using ps(5) a2 eq by blast
  show ?thesis
    using reachable_hello(2) f(1) ps(2,3) n a1 o1 a2 o2 by (intro conjI)
qed

end
